theory Spec2Isabelle
  imports Main "HOL-Library.Word"
begin

unbundle bit_operations_syntax

section \<open>Python values: exceptions, bytearrays, files\<close>

text \<open>
  The module \<^verbatim>\<open>bitstore.py\<close> stores runs of bits in a \<^verbatim>\<open>bytearray\<close> or reads them
  from a file.  Python integers are modelled as \<^typ>\<open>int\<close>, the elements of a
  \<^verbatim>\<open>bytearray\<close> as 8-bit words (a bytearray cannot hold anything else), and every
  exception the code can raise is a value of \<open>error\<close>: a function that can raise returns
  \<open>error + 'a\<close>, with \<open>Inl\<close> the exception.
\<close>

datatype error =
  AssertionError | IndexError | TypeError | ValueError | AttributeError
  | NotImplementedError | IOError | OverflowError | CreationError

definition bindE :: "error + 'a \<Rightarrow> ('a \<Rightarrow> error + 'b) \<Rightarrow> error + 'b" where
  "bindE m f = (case m of Inl e \<Rightarrow> Inl e | Inr v \<Rightarrow> f v)"

primrec mapE :: "('a \<Rightarrow> error + 'b) \<Rightarrow> 'a list \<Rightarrow> error + 'b list" where
  "mapE f [] = Inr []"
| "mapE f (x # xs) = bindE (f x) (\<lambda>y. bindE (mapE f xs) (\<lambda>ys. Inr (y # ys)))"

text \<open>A \<^verbatim>\<open>for\<close> loop whose body returns \<^verbatim>\<open>False\<close> from the function on a mismatch.\<close>

primrec all_loop :: "('a \<Rightarrow> error + bool) \<Rightarrow> 'a list \<Rightarrow> error + bool" where
  "all_loop P [] = Inr True"
| "all_loop P (x # xs) = bindE (P x) (\<lambda>ok. if ok then all_loop P xs else Inr False)"

type_synonym byte = "8 word"

text \<open>Storing an integer in a bytearray: \<^verbatim>\<open>ValueError\<close> outside \<^verbatim>\<open>range(256)\<close>.\<close>

definition to_byte :: "int \<Rightarrow> error + byte" where
  "to_byte v = (if 0 \<le> v \<and> v < 256 then Inr (word_of_int v) else Inl ValueError)"

definition bytearray :: "int list \<Rightarrow> error + byte list" where
  "bytearray vs = mapE to_byte vs"

text \<open>\<^verbatim>\<open>range(lo, hi)\<close>.\<close>

definition py_range :: "int \<Rightarrow> int \<Rightarrow> int list" where
  "py_range lo hi = map (\<lambda>k. lo + int k) [0..<nat (hi - lo)]"

text \<open>
  \<^verbatim>\<open>d[i]\<close> and \<^verbatim>\<open>d[i] = v\<close> on a bytearray: a negative index counts from the end.
  The assignment converts the index to a machine integer (\<^verbatim>\<open>IndexError\<close> if it does not
  fit), then checks the value (\<^verbatim>\<open>ValueError\<close>), and only then the index against the
  length (\<^verbatim>\<open>IndexError\<close>).
\<close>

definition getitem :: "byte list \<Rightarrow> int \<Rightarrow> error + int" where
  "getitem d i =
     (let n = int (length d); j = (if i < 0 then i + n else i)
      in if 0 \<le> j \<and> j < n then Inr (uint (d ! nat j)) else Inl IndexError)"

definition setitem :: "byte list \<Rightarrow> int \<Rightarrow> int \<Rightarrow> error + byte list" where
  "setitem d i v =
     (if \<not> (- (2 ^ 63) \<le> i \<and> i < 2 ^ 63) then Inl IndexError
      else bindE (to_byte v) (\<lambda>w.
        let n = int (length d); j = (if i < 0 then i + n else i)
        in if 0 \<le> j \<and> j < n then Inr (d[nat j := w]) else Inl IndexError))"

text \<open>\<^verbatim>\<open>d[i:j]\<close> and \<^verbatim>\<open>d[i:j] = v\<close>: the bounds are clamped to the length, never an error.\<close>

definition slice_bound :: "nat \<Rightarrow> int \<Rightarrow> nat" where
  "slice_bound n k = nat (min (int n) (max 0 (if k < 0 then k + int n else k)))"

definition getslice :: "'a list \<Rightarrow> int \<Rightarrow> int \<Rightarrow> 'a list" where
  "getslice d i j =
     (let lo = slice_bound (length d) i; hi = slice_bound (length d) j
      in take (hi - lo) (drop lo d))"

definition setslice :: "'a list \<Rightarrow> int \<Rightarrow> int \<Rightarrow> 'a list \<Rightarrow> 'a list" where
  "setslice d i j v =
     (let lo = slice_bound (length d) i; hi = slice_bound (length d) j
      in take lo d @ v @ drop (max lo hi) d)"

text \<open>\<^verbatim>\<open>d.pop()\<close>: the bytearray without its last byte, and that byte.\<close>

definition pop :: "byte list \<Rightarrow> error + (byte list \<times> int)" where
  "pop d = (if d = [] then Inl IndexError else Inr (butlast d, uint (last d)))"

text \<open>\<^verbatim>\<open>x >> n\<close> where the code does not bound \<open>n\<close>: a negative count raises.\<close>

definition rshift :: "int \<Rightarrow> int \<Rightarrow> error + int" where
  "rshift x n = (if n < 0 then Inl ValueError else Inr (drop_bit (nat n) x))"

text \<open>
  A file is its content; \<^verbatim>\<open>os.path.getsize\<close> is its length.  \<^verbatim>\<open>seek\<close> converts the
  position to a machine offset (\<^verbatim>\<open>ValueError\<close> if it does not fit in 64 bits) and raises
  \<^verbatim>\<open>IOError\<close> for a negative one; \<^verbatim>\<open>read(1)\<close> at or past the end returns the empty
  string, and \<^verbatim>\<open>ord\<close> of it raises \<^verbatim>\<open>TypeError\<close>.  \<^verbatim>\<open>read(n)\<close> raises
  \<^verbatim>\<open>OverflowError\<close> for a count that does not fit in 64 bits.
\<close>

type_synonym pyfile = "byte list"

definition seek :: "int \<Rightarrow> error + nat" where
  "seek pos =
     (if \<not> (- (2 ^ 63) \<le> pos \<and> pos < 2 ^ 63) then Inl ValueError
      else if pos < 0 then Inl IOError else Inr (nat pos))"

definition seek_read1 :: "pyfile \<Rightarrow> int \<Rightarrow> error + int" where
  "seek_read1 f pos =
     bindE (seek pos) (\<lambda>p. if p < length f then Inr (uint (f ! p)) else Inl TypeError)"

definition seek_read :: "pyfile \<Rightarrow> int \<Rightarrow> int \<Rightarrow> error + byte list" where
  "seek_read f pos n =
     bindE (seek pos) (\<lambda>p.
       if \<not> (- (2 ^ 63) \<le> n \<and> n < 2 ^ 63) then Inl OverflowError
       else Inr (take (nat n) (drop p f)))"

section \<open>Objects and the store\<close>

text \<open>
  \<^verbatim>\<open>ConstByteArray\<close> and \<^verbatim>\<open>ByteArray\<close> have the slots \<^verbatim>\<open>_rawarray\<close>, \<^verbatim>\<open>offset\<close>,
  \<^verbatim>\<open>bitlength\<close>; \<^verbatim>\<open>_rawarray\<close> is a reference to a bytearray, which other objects may
  share.  \<^verbatim>\<open>FileArray\<close> has the slots \<^verbatim>\<open>source\<close>, \<^verbatim>\<open>bytelength\<close>, \<^verbatim>\<open>bitlength\<close>,
  \<^verbatim>\<open>byteoffset\<close>, \<^verbatim>\<open>offset\<close>.  The store holds the bytearrays and the buffer objects;
  a reference is an index into it, and allocation appends.
\<close>

record mem_slots =
  rawarray :: nat
  m_offset :: int
  m_bitlength :: int

record file_slots =
  source :: pyfile
  f_bytelength :: int
  f_bitlength :: int
  f_byteoffset :: int
  f_offset :: int

datatype cls = ConstByteArray | ByteArray

datatype array = InMemory cls mem_slots | FileArray file_slots

record heap =
  bytearrays :: "byte list list"
  objects :: "array list"

definition new_bytearray :: "heap \<Rightarrow> byte list \<Rightarrow> heap \<times> nat" where
  "new_bytearray h d = (h\<lparr>bytearrays := bytearrays h @ [d]\<rparr>, length (bytearrays h))"

definition new_object :: "heap \<Rightarrow> array \<Rightarrow> heap \<times> nat" where
  "new_object h a = (h\<lparr>objects := objects h @ [a]\<rparr>, length (objects h))"

definition set_bytes :: "heap \<Rightarrow> nat \<Rightarrow> byte list \<Rightarrow> heap" where
  "set_bytes h r d = h\<lparr>bytearrays := (bytearrays h)[r := d]\<rparr>"

definition set_object :: "heap \<Rightarrow> nat \<Rightarrow> array \<Rightarrow> heap" where
  "set_object h r a = h\<lparr>objects := (objects h)[r := a]\<rparr>"

text \<open>The attributes and properties every buffer object answers.\<close>

definition offset :: "array \<Rightarrow> int" where
  "offset a = (case a of InMemory c m \<Rightarrow> m_offset m | FileArray f \<Rightarrow> f_offset f)"

definition bitlength :: "array \<Rightarrow> int" where
  "bitlength a = (case a of InMemory c m \<Rightarrow> m_bitlength m | FileArray f \<Rightarrow> f_bitlength f)"

definition byteoffset :: "array \<Rightarrow> int" where
  "byteoffset a = (case a of InMemory c m \<Rightarrow> m_offset m div 8 | FileArray f \<Rightarrow> f_byteoffset f)"

definition bytelength :: "array \<Rightarrow> int" where
  "bytelength a =
     (case a of
        InMemory c m \<Rightarrow>
          if m_bitlength m = 0 then 0
          else let sb = m_offset m div 8; eb = (m_offset m + m_bitlength m - 1) div 8
               in if eb = -1 then 1 else eb - sb + 1
      | FileArray f \<Rightarrow> f_bytelength f)"

section \<open>Constructors\<close>

text \<open>\<^verbatim>\<open>ByteArray(data, bitlength, offset)\<close>: the object keeps the reference \<open>data\<close>.\<close>

definition ByteArray_init :: "heap \<Rightarrow> cls \<Rightarrow> nat \<Rightarrow> int \<Rightarrow> int \<Rightarrow> heap \<times> nat" where
  "ByteArray_init h c data bl off =
     new_object h (InMemory c \<lparr>rawarray = data, m_offset = off, m_bitlength = bl\<rparr>)"

text \<open>\<^verbatim>\<open>ByteArray(bytearray(...), bitlength, offset)\<close> over a bytearray made on the spot.\<close>

definition ByteArray_fresh :: "heap \<Rightarrow> byte list \<Rightarrow> int \<Rightarrow> int \<Rightarrow> heap \<times> nat" where
  "ByteArray_fresh h d bl off =
     (case new_bytearray h d of (h1, r) \<Rightarrow> ByteArray_init h1 ByteArray r bl off)"

text \<open>\<^verbatim>\<open>FileArray(source, bitlength, offset)\<close>; \<open>None\<close> asks for the rest of the file.\<close>

definition FileArray_init ::
  "heap \<Rightarrow> pyfile \<Rightarrow> int option \<Rightarrow> int \<Rightarrow> error + heap \<times> nat" where
  "FileArray_init h src bl off =
     (let byteoffset = off div 8; bitoffset = off mod 8;
          filelength = int (length src);
          bytelength = (case bl of None \<Rightarrow> filelength - byteoffset
                        | Some n \<Rightarrow> (n + bitoffset + 7) div 8);
          bitlength = (case bl of None \<Rightarrow> bytelength * 8 - bitoffset | Some n \<Rightarrow> n)
      in if bytelength > filelength - byteoffset then Inl CreationError
         else Inr (new_object h (FileArray \<lparr>source = src, f_bytelength = bytelength,
                f_bitlength = bitlength, f_byteoffset = byteoffset, f_offset = bitoffset\<rparr>)))"

section \<open>Reading\<close>

definition getbit :: "heap \<Rightarrow> nat \<Rightarrow> int \<Rightarrow> error + bool" where
  "getbit h self pos =
     (case objects h ! self of
        InMemory c m \<Rightarrow>
          if \<not> (0 \<le> pos \<and> pos < m_bitlength m) then Inl AssertionError
          else bindE (getitem (bytearrays h ! rawarray m) ((m_offset m + pos) div 8))
                 (\<lambda>v. Inr (v AND drop_bit (nat ((m_offset m + pos) mod 8)) 128 \<noteq> 0))
      | FileArray f \<Rightarrow>
          if \<not> (0 \<le> pos \<and> pos < f_bitlength f) then Inl AssertionError
          else bindE (seek_read1 (source f) ((f_offset f + pos) div 8 + f_byteoffset f))
                 (\<lambda>v. Inr (v AND drop_bit (nat ((f_offset f + pos) mod 8)) 128 \<noteq> 0)))"

definition FileArray_getbyte :: "file_slots \<Rightarrow> int \<Rightarrow> error + int" where
  "FileArray_getbyte f pos =
     seek_read1 (source f) ((if pos < 0 then pos + f_bytelength f else pos) + f_byteoffset f)"

definition getbyte :: "heap \<Rightarrow> nat \<Rightarrow> int \<Rightarrow> error + int" where
  "getbyte h self pos =
     (case objects h ! self of
        InMemory c m \<Rightarrow> getitem (bytearrays h ! rawarray m) (pos + m_offset m div 8)
      | FileArray f \<Rightarrow> FileArray_getbyte f pos)"

definition getbyteslice :: "heap \<Rightarrow> nat \<Rightarrow> int \<Rightarrow> int \<Rightarrow> error + byte list" where
  "getbyteslice h self start stop =
     (case objects h ! self of
        InMemory c m \<Rightarrow>
          Inr (getslice (bytearrays h ! rawarray m) (start + m_offset m div 8)
                 (stop + m_offset m div 8))
      | FileArray f \<Rightarrow>
          if start < stop then seek_read (source f) (start + f_byteoffset f) (stop - start)
          else Inr [])"

text \<open>
  \<^verbatim>\<open>obj[x]\<close> on a buffer object: only \<^verbatim>\<open>FileArray\<close> defines \<^verbatim>\<open>__getitem__\<close>, which
  calls \<^verbatim>\<open>getbyte(pos + self.byteoffset)\<close>; the in-memory classes are not subscriptable.
\<close>

definition subscript :: "array \<Rightarrow> int \<Rightarrow> error + int" where
  "subscript a x =
     (case a of InMemory c m \<Rightarrow> Inl TypeError
      | FileArray f \<Rightarrow> FileArray_getbyte f (x + f_byteoffset f))"

text \<open>\<^verbatim>\<open>copy.copy(s)\<close>: a new \<^verbatim>\<open>ByteArray\<close> over a new bytearray.\<close>

definition copy :: "heap \<Rightarrow> nat \<Rightarrow> error + heap \<times> nat" where
  "copy h self =
     (case objects h ! self of
        InMemory c m \<Rightarrow>
          Inr (ByteArray_fresh h (bytearrays h ! rawarray m) (m_bitlength m) (m_offset m))
      | FileArray f \<Rightarrow>
          bindE (getbyteslice h self 0 (f_bytelength f))
            (\<lambda>d. Inr (ByteArray_fresh h d (f_bitlength f) (f_offset f))))"

text \<open>\<^verbatim>\<open>slice(ba, bitlength, offset)\<close>: a new object over the same storage.\<close>

definition slice_array :: "heap \<Rightarrow> nat \<Rightarrow> int \<Rightarrow> int \<Rightarrow> error + heap \<times> nat" where
  "slice_array h ba bl off =
     (case objects h ! ba of
        InMemory c m \<Rightarrow> Inr (ByteArray_init h ByteArray (rawarray m) bl (m_offset m + off))
      | FileArray f \<Rightarrow>
          FileArray_init h (source f) (Some bl) (8 * f_byteoffset f + f_offset f + off))"

section \<open>Realignment\<close>

text \<open>
  The two shifting loops of \<^verbatim>\<open>offsetcopy\<close>.  \<open>d\<close> is what the code indexes: the
  bytearray of an in-memory buffer, or the \<^verbatim>\<open>FileArray\<close> object itself.
\<close>

definition bits_in_last_byte :: "array \<Rightarrow> int" where
  "bits_in_last_byte s =
     (let n = (offset s + bitlength s) mod 8 in if n = 0 then 8 else n)"

definition offsetcopy_left ::
  "(int \<Rightarrow> error + int) \<Rightarrow> array \<Rightarrow> nat \<Rightarrow> error + int list" where
  "offsetcopy_left d s shiftleft =
     bindE (mapE (\<lambda>x. bindE (d x) (\<lambda>u. bindE (d (x + 1)) (\<lambda>v.
                Inr ((push_bit shiftleft u AND 255) + drop_bit (8 - shiftleft) v))))
              (py_range (byteoffset s) (byteoffset s + bytelength s - 1)))
       (\<lambda>newdata.
          if bits_in_last_byte s > int shiftleft
          then bindE (d (byteoffset s + bytelength s - 1))
                 (\<lambda>u. Inr (newdata @ [push_bit shiftleft u AND 255]))
          else Inr newdata)"

definition offsetcopy_right ::
  "error + int \<Rightarrow> (int \<Rightarrow> error + int) \<Rightarrow> array \<Rightarrow> nat \<Rightarrow> error + int list" where
  "offsetcopy_right byte0 d s shiftright =
     bindE byte0 (\<lambda>b0.
     bindE (mapE (\<lambda>x. bindE (d (x - 1)) (\<lambda>u. bindE (d x) (\<lambda>v.
                Inr ((push_bit (8 - shiftright) u AND 255) + drop_bit shiftright v))))
              (py_range 1 (bytelength s)))
       (\<lambda>more.
          let newdata = drop_bit shiftright b0 # more
          in if bits_in_last_byte s + int shiftright > 8
             then bindE (d (byteoffset s + bytelength s - 1))
                    (\<lambda>u. Inr (newdata @ [push_bit (8 - shiftright) u AND 255]))
             else Inr newdata))"

definition offsetcopy :: "heap \<Rightarrow> nat \<Rightarrow> int \<Rightarrow> error + heap \<times> nat" where
  "offsetcopy h s newoffset =
     (let obj = objects h ! s in
      if \<not> (0 \<le> newoffset \<and> newoffset < 8) then Inl AssertionError
      else if bitlength obj = 0 then copy h s
      else
        let d = (case obj of InMemory c m \<Rightarrow> getitem (bytearrays h ! rawarray m)
                 | FileArray f \<Rightarrow> subscript obj)
        in if newoffset = offset obj mod 8
           then bindE (getbyteslice h s 0 (bytelength obj))
                  (\<lambda>bs. Inr (ByteArray_fresh h bs (bitlength obj) newoffset))
           else
             bindE (if newoffset < offset obj mod 8
                    then offsetcopy_left d obj (nat (offset obj mod 8 - newoffset))
                    else offsetcopy_right (getbyte h s 0) d obj
                           (nat (newoffset - offset obj mod 8)))
               (\<lambda>newdata. bindE (bytearray newdata)
                  (\<lambda>bs. Inr (ByteArray_fresh h bs (bitlength obj) newoffset))))"

section \<open>Structural equality\<close>

text \<open>\<^verbatim>\<open>((d[i] << bitoff) & 0xff) >> (8 - bitlength)\<close>, the value of a one-byte buffer.\<close>

definition single_byte_val ::
  "(int \<Rightarrow> error + int) \<Rightarrow> int \<Rightarrow> int \<Rightarrow> int \<Rightarrow> error + int" where
  "single_byte_val d i bitoff bl =
     bindE (d i) (\<lambda>x. rshift (push_bit (nat bitoff) x AND 255) (8 - bl))"

definition equal_aligned ::
  "(int \<Rightarrow> error + int) \<Rightarrow> (int \<Rightarrow> error + int) \<Rightarrow> array \<Rightarrow> array \<Rightarrow> error + bool" where
  "equal_aligned da db a b =
     (let a_bitoff = offset a mod 8; b_bitoff = offset b mod 8;
          a_byteoffset = byteoffset a; b_byteoffset = byteoffset b;
          a_bytelength = bytelength a; b_bytelength = bytelength b;
          spare = 8 - (a_bitoff + bitlength a) mod 8;
          bits_spare_in_last_byte = (if spare = 8 then 0 else spare)
      in if a_bytelength = 1
         then bindE (single_byte_val da a_byteoffset a_bitoff (bitlength a)) (\<lambda>a_val.
              bindE (single_byte_val db b_byteoffset b_bitoff (bitlength b)) (\<lambda>b_val.
                Inr (a_val = b_val)))
         else
           bindE (da a_byteoffset) (\<lambda>x. bindE (db b_byteoffset) (\<lambda>y.
             if x AND drop_bit (nat a_bitoff) 255 \<noteq> y AND drop_bit (nat b_bitoff) 255
             then Inr False
             else
               bindE (all_loop
                        (\<lambda>x. bindE (da x) (\<lambda>u.
                              bindE (db (b_byteoffset - a_byteoffset + x)) (\<lambda>v.
                                Inr (u = v))))
                        (py_range (1 + a_byteoffset) (a_byteoffset + a_bytelength - 1)))
                 (\<lambda>ok. if \<not> ok then Inr False
                    else bindE (da (a_byteoffset + a_bytelength - 1)) (\<lambda>x.
                         bindE (db (b_byteoffset + b_bytelength - 1)) (\<lambda>y.
                           Inr (drop_bit (nat bits_spare_in_last_byte) x
                                = drop_bit (nat bits_spare_in_last_byte) y)))))))"

definition final_bits :: "array \<Rightarrow> int" where
  "final_bits a = (let n = (offset a + bitlength a) mod 8 in if n = 0 then 8 else n)"

definition equal_misaligned ::
  "(int \<Rightarrow> error + int) \<Rightarrow> (int \<Rightarrow> error + int) \<Rightarrow> array \<Rightarrow> array \<Rightarrow> error + bool" where
  "equal_misaligned da db a b =
     (let a_bitoff = offset a mod 8; b_bitoff = offset b mod 8;
          a_byteoffset = byteoffset a; b_byteoffset = byteoffset b;
          a_bytelength = bytelength a; b_bytelength = bytelength b;
          shift = nat (b_bitoff - a_bitoff)
      in if b_bytelength = 1
         then if a_bytelength \<noteq> 1 then Inl AssertionError
              else bindE (single_byte_val da a_byteoffset a_bitoff (bitlength a)) (\<lambda>a_val.
                   bindE (single_byte_val db b_byteoffset b_bitoff (bitlength b)) (\<lambda>b_val.
                     Inr (a_val = b_val)))
         else if a_bytelength = 1
         then if b_bytelength \<noteq> 2 then Inl AssertionError
              else bindE (single_byte_val da a_byteoffset a_bitoff (bitlength a)) (\<lambda>a_val.
                   bindE (db b_byteoffset) (\<lambda>y0. bindE (db (b_byteoffset + 1)) (\<lambda>y1.
                   bindE (rshift (push_bit (nat b_bitoff) (push_bit 8 y0 + y1) AND 65535)
                            (16 - bitlength b)) (\<lambda>b_val.
                     Inr (a_val = b_val)))))
         else
           bindE (da a_byteoffset) (\<lambda>x. bindE (db b_byteoffset) (\<lambda>y.
             if drop_bit shift (x AND drop_bit (nat a_bitoff) 255)
                \<noteq> y AND drop_bit (nat b_bitoff) 255
             then Inr False
             else
               bindE (all_loop
                        (\<lambda>x. bindE (db (b_byteoffset + x)) (\<lambda>b_val.
                              bindE (da (a_byteoffset + x - 1)) (\<lambda>u.
                              bindE (da (a_byteoffset + x)) (\<lambda>v.
                                Inr (drop_bit shift (push_bit 8 u + v) AND 255 = b_val)))))
                        (py_range 1 (b_bytelength - 1)))
                 (\<lambda>ok. if \<not> ok then Inr False
                    else
                      bindE (db (b_byteoffset + b_bytelength - 1)) (\<lambda>y.
                        let final_b_bits = final_bits b;
                            b_val = drop_bit (nat (8 - final_b_bits)) y;
                            final_a_bits = final_bits a
                        in if b_bytelength > a_bytelength
                           then if b_bytelength \<noteq> a_bytelength + 1 then Inl AssertionError
                                else bindE (da (a_byteoffset + a_bytelength - 1)) (\<lambda>x.
                                  Inr (drop_bit (nat (8 - final_a_bits)) x
                                         AND drop_bit (nat (8 - final_b_bits)) 255 = b_val))
                           else if a_bytelength \<noteq> b_bytelength then Inl AssertionError
                           else bindE (da (a_byteoffset + a_bytelength - 2)) (\<lambda>x0.
                                bindE (da (a_byteoffset + a_bytelength - 1)) (\<lambda>x1.
                                  Inr (drop_bit (nat (8 - final_a_bits)) (push_bit 8 x0 + x1)
                                         AND drop_bit (nat (8 - final_b_bits)) 255
                                       = b_val))))))))"

text \<open>
  \<^verbatim>\<open>equal(a, b)\<close>.  \<open>da\<close> and \<open>db\<close> are the two bytearrays when both objects have a
  \<^verbatim>\<open>_rawarray\<close>; when either has none the \<^verbatim>\<open>except\<close> branch makes them the two
  objects themselves, and \<^verbatim>\<open>da is db\<close> compares object identity.
\<close>

definition equal :: "heap \<Rightarrow> nat \<Rightarrow> nat \<Rightarrow> error + bool" where
  "equal h a0 b0 =
     (if bitlength (objects h ! a0) \<noteq> bitlength (objects h ! b0) then Inr False
      else if bitlength (objects h ! a0) = 0 then Inr True
      else
        let swap = offset (objects h ! a0) mod 8 > offset (objects h ! b0) mod 8;
            a = (if swap then b0 else a0); b = (if swap then a0 else b0);
            oa = objects h ! a; ob = objects h ! b;
            da = (case (oa, ob) of
                    (InMemory ca ma, InMemory cb mb) \<Rightarrow> getitem (bytearrays h ! rawarray ma)
                  | _ \<Rightarrow> subscript oa);
            db = (case (oa, ob) of
                    (InMemory ca ma, InMemory cb mb) \<Rightarrow> getitem (bytearrays h ! rawarray mb)
                  | _ \<Rightarrow> subscript ob);
            da_is_db = (case (oa, ob) of
                    (InMemory ca ma, InMemory cb mb) \<Rightarrow> rawarray ma = rawarray mb
                  | _ \<Rightarrow> a = b)
        in if da_is_db \<and> offset oa = offset ob then Inr True
           else if offset oa mod 8 = offset ob mod 8 then equal_aligned da db oa ob
           else equal_misaligned da db oa ob)"

section \<open>Mutation\<close>

text \<open>
  The mutators are methods of \<^verbatim>\<open>ByteArray\<close> only.  \<^verbatim>\<open>setbit\<close>, \<^verbatim>\<open>setbyte\<close> and the like
  do not exist on the other classes (\<^verbatim>\<open>AttributeError\<close>); \<^verbatim>\<open>appendarray\<close> and
  \<^verbatim>\<open>prependarray\<close> are inherited from \<^verbatim>\<open>BaseArray\<close> there and raise
  \<^verbatim>\<open>NotImplementedError\<close>.
\<close>

definition update_bit ::
  "(int \<Rightarrow> int \<Rightarrow> int) \<Rightarrow> heap \<Rightarrow> nat \<Rightarrow> int \<Rightarrow> error + heap" where
  "update_bit f h self pos =
     (case objects h ! self of
        InMemory ByteArray m \<Rightarrow>
          if \<not> (0 \<le> pos \<and> pos < m_bitlength m) then Inl AssertionError
          else
            let byte = (m_offset m + pos) div 8; bit = nat ((m_offset m + pos) mod 8);
                d = bytearrays h ! rawarray m
            in bindE (getitem d byte) (\<lambda>v.
               bindE (setitem d byte (f v (drop_bit bit 128))) (\<lambda>d'.
                 Inr (set_bytes h (rawarray m) d')))
      | _ \<Rightarrow> Inl AttributeError)"

definition setbit :: "heap \<Rightarrow> nat \<Rightarrow> int \<Rightarrow> error + heap" where
  "setbit = update_bit (\<lambda>v mask. v OR mask)"

definition unsetbit :: "heap \<Rightarrow> nat \<Rightarrow> int \<Rightarrow> error + heap" where
  "unsetbit = update_bit (\<lambda>v mask. v AND NOT mask)"

definition invertbit :: "heap \<Rightarrow> nat \<Rightarrow> int \<Rightarrow> error + heap" where
  "invertbit = update_bit (\<lambda>v mask. v XOR mask)"

definition setbyte :: "heap \<Rightarrow> nat \<Rightarrow> int \<Rightarrow> int \<Rightarrow> error + heap" where
  "setbyte h self pos v =
     (case objects h ! self of
        InMemory ByteArray m \<Rightarrow>
          bindE (setitem (bytearrays h ! rawarray m) (pos + m_offset m div 8) v)
            (\<lambda>d'. Inr (set_bytes h (rawarray m) d'))
      | _ \<Rightarrow> Inl AttributeError)"

definition setbyteslice :: "heap \<Rightarrow> nat \<Rightarrow> int \<Rightarrow> int \<Rightarrow> int list \<Rightarrow> error + heap" where
  "setbyteslice h self start stop vs =
     (case objects h ! self of
        InMemory ByteArray m \<Rightarrow>
          bindE (bytearray vs) (\<lambda>bs.
            Inr (set_bytes h (rawarray m)
                   (setslice (bytearrays h ! rawarray m) (start + m_offset m div 8)
                      (stop + m_offset m div 8) bs)))
      | _ \<Rightarrow> Inl AttributeError)"

text \<open>The slots of an object that is known to be in memory.\<close>

definition slots :: "array \<Rightarrow> mem_slots" where
  "slots a = (case a of InMemory c m \<Rightarrow> m
              | FileArray f \<Rightarrow> \<lparr>rawarray = 0, m_offset = f_offset f, m_bitlength = f_bitlength f\<rparr>)"

definition appendarray :: "heap \<Rightarrow> nat \<Rightarrow> nat \<Rightarrow> error + heap" where
  "appendarray h self array =
     (case objects h ! self of
        InMemory ByteArray m \<Rightarrow>
          if bitlength (objects h ! array) = 0 then Inr h
          else
            bindE (offsetcopy h array ((m_offset m + m_bitlength m) mod 8)) (\<lambda>(h1, arr).
              let am = slots (objects h1 ! arr) in
              bindE (if m_offset am \<noteq> 0
                     then bindE (pop (bytearrays h1 ! rawarray m)) (\<lambda>(d1, lastbyte).
                          let h2 = set_bytes h1 (rawarray m) d1 in
                          bindE (getbyte h2 arr 0) (\<lambda>firstbyte.
                          bindE (to_byte
                                   ((lastbyte AND (255 XOR drop_bit (nat (m_offset am)) 255))
                                    OR (firstbyte AND drop_bit (nat (m_offset am)) 255)))
                            (\<lambda>joinval.
                          let h3 = set_bytes h2 (rawarray m)
                                     (bytearrays h2 ! rawarray m @ [joinval]);
                              rest = getslice (bytearrays h3 ! rawarray am) 1
                                       (int (length (bytearrays h3 ! rawarray am)))
                          in Inr (set_bytes h3 (rawarray m)
                                    (bytearrays h3 ! rawarray m @ rest)))))
                     else Inr (set_bytes h1 (rawarray m)
                                 (bytearrays h1 ! rawarray m @ bytearrays h1 ! rawarray am)))
                (\<lambda>h4. Inr (set_object h4 self
                        (InMemory ByteArray (m\<lparr>m_bitlength := m_bitlength m + m_bitlength am\<rparr>)))))
      | _ \<Rightarrow> Inl NotImplementedError)"

definition prependarray :: "heap \<Rightarrow> nat \<Rightarrow> nat \<Rightarrow> error + heap" where
  "prependarray h self array =
     (case objects h ! self of
        InMemory ByteArray m \<Rightarrow>
          if bitlength (objects h ! array) = 0 then Inr h
          else
            bindE (offsetcopy h array ((m_offset m - bitlength (objects h ! array)) mod 8))
              (\<lambda>(h1, arr).
              let am = slots (objects h1 ! arr) in
              if (m_offset am + m_bitlength am) mod 8 \<noteq> m_offset m then Inl AssertionError
              else
                bindE (if m_offset m \<noteq> 0
                       then bindE (getbyte h1 arr (- 1)) (\<lambda>lastbyte.
                            bindE (getitem (bytearrays h1 ! rawarray m) 0) (\<lambda>firstbyte.
                            bindE (setbyte h1 arr (- 1)
                                     ((lastbyte AND (255 XOR drop_bit (nat (m_offset m)) 255))
                                      OR (firstbyte AND drop_bit (nat (m_offset m)) 255)))
                              (\<lambda>h2.
                            Inr (set_bytes h2 (rawarray am)
                                   (bytearrays h2 ! rawarray am
                                    @ getslice (bytearrays h2 ! rawarray m) 1
                                        (bytelength (objects h2 ! self)))))))
                       else Inr (set_bytes h1 (rawarray am)
                                   (bytearrays h1 ! rawarray am
                                    @ getslice (bytearrays h1 ! rawarray m) 0
                                        (bytelength (objects h1 ! self)))))
                  (\<lambda>h3. Inr (set_object h3 self
                          (InMemory ByteArray
                             \<lparr>rawarray = rawarray am, m_offset = m_offset am,
                              m_bitlength = m_bitlength m + m_bitlength am\<rparr>))))
      | _ \<Rightarrow> Inl NotImplementedError)"

text \<open>
  One call of a mutator on an object: the method and its arguments.
\<close>

datatype mutation =
  Setbit int | Unsetbit int | Invertbit int | Setbyte int int
  | Setbyteslice int int "int list" | Appendarray nat | Prependarray nat

fun mutate :: "heap \<Rightarrow> nat \<Rightarrow> mutation \<Rightarrow> error + heap" where
  "mutate h self (Setbit pos) = setbit h self pos"
| "mutate h self (Unsetbit pos) = unsetbit h self pos"
| "mutate h self (Invertbit pos) = invertbit h self pos"
| "mutate h self (Setbyte pos v) = setbyte h self pos v"
| "mutate h self (Setbyteslice start stop vs) = setbyteslice h self start stop vs"
| "mutate h self (Appendarray array) = appendarray h self array"
| "mutate h self (Prependarray array) = prependarray h self array"

section \<open>Views of the store\<close>

text \<open>
  An object of the store whose storage, if it is in memory, is a bytearray of the store;
  and two stores in which an object has the same slots and the same stored bytes, so
  that every read of it gives the same result in both.
\<close>

definition allocated :: "heap \<Rightarrow> nat \<Rightarrow> bool" where
  "allocated h s =
     (s < length (objects h)
      \<and> (case objects h ! s of InMemory c m \<Rightarrow> rawarray m < length (bytearrays h)
         | FileArray f \<Rightarrow> True))"

definition same_view :: "heap \<Rightarrow> heap \<Rightarrow> nat \<Rightarrow> bool" where
  "same_view h h' s =
     (objects h' ! s = objects h ! s
      \<and> (case objects h ! s of
           InMemory c m \<Rightarrow> bytearrays h' ! rawarray m = bytearrays h ! rawarray m
         | FileArray f \<Rightarrow> True))"

section \<open>The bits a buffer addresses\<close>

text \<open>
  Bit \<open>p\<close> of a bytearray, counted from the most significant bit of byte 0; an integer
  \<open>v\<close> that holds, in its low \<open>w\<close> bits, the bits of the bytearray that end at position
  \<open>p\<close>; and two bytearrays that agree on the bits \<open>lo \<le> i < hi\<close> counted from an offset
  into each.
\<close>

definition bit_at :: "byte list \<Rightarrow> int \<Rightarrow> bool" where
  "bit_at d p = bit (d ! nat (p div 8)) (nat (7 - p mod 8))"

definition is_field :: "int \<Rightarrow> byte list \<Rightarrow> int \<Rightarrow> int \<Rightarrow> bool" where
  "is_field v d p w = (\<forall>t. bit v t = (int t < w \<and> bit_at d (p - int t)))"

definition agree :: "byte list \<Rightarrow> int \<Rightarrow> byte list \<Rightarrow> int \<Rightarrow> int \<Rightarrow> int \<Rightarrow> bool" where
  "agree da oa db ob lo hi =
     (\<forall>i. lo \<le> i \<and> i < hi \<longrightarrow> bit_at da (oa + i) = bit_at db (ob + i))"

definition shifted_byte :: "int \<Rightarrow> byte list \<Rightarrow> int \<Rightarrow> int \<Rightarrow> int \<Rightarrow> int \<Rightarrow> bool" where
  "shifted_byte w d k delta lo hi =
     ((\<forall>t. bit w t \<longrightarrow> t < 8)
      \<and> (\<forall>t. t < 8 \<and> lo \<le> 8 * k + 7 - int t \<and> 8 * k + 7 - int t < hi
             \<longrightarrow> bit w t = bit_at d (8 * k + 7 - int t + delta)))"

section \<open>Concrete stores\<close>

text \<open>One in-memory buffer over the single byte \<^verbatim>\<open>0b10110100\<close>, offset 2, four bits.\<close>

definition store_b4 :: heap where
  "store_b4 = \<lparr>bytearrays = [[0xB4]],
     objects = [InMemory ByteArray \<lparr>rawarray = 0, m_offset = 2, m_bitlength = 4\<rparr>]\<rparr>"

text \<open>One in-memory buffer addressing the first byte of the three bytes 1, 2, 3.\<close>

definition store_123 :: heap where
  "store_123 = \<lparr>bytearrays = [[1, 2, 3]],
     objects = [InMemory ByteArray \<lparr>rawarray = 0, m_offset = 0, m_bitlength = 8\<rparr>]\<rparr>"

text \<open>An in-memory buffer and a file-backed buffer, both holding the four bits 1111.\<close>

definition store_mixed :: heap where
  "store_mixed = \<lparr>bytearrays = [[0xF0]],
     objects = [InMemory ByteArray \<lparr>rawarray = 0, m_offset = 0, m_bitlength = 4\<rparr>,
                FileArray \<lparr>source = [0x0F], f_bytelength = 1, f_bitlength = 4,
                           f_byteoffset = 0, f_offset = 4\<rparr>]\<rparr>"

text \<open>
  The same two bytes in a file and in memory, and the same window of eleven bits from
  bit 3 on both.
\<close>

definition store_window :: heap where
  "store_window = \<lparr>bytearrays = [[0xA5, 0x3C]],
     objects = [FileArray \<lparr>source = [0xA5, 0x3C], f_bytelength = 2, f_bitlength = 11,
                           f_byteoffset = 0, f_offset = 3\<rparr>,
                InMemory ByteArray \<lparr>rawarray = 0, m_offset = 3, m_bitlength = 11\<rparr>]\<rparr>"

text \<open>
  A file of four bytes and the buffer \<^verbatim>\<open>FileArray(source, 8, 8)\<close> over its second byte;
  then the store after each of two calls of \<^verbatim>\<open>offsetcopy\<close>.
\<close>

definition store_file :: heap where
  "store_file = \<lparr>bytearrays = [],
     objects = [FileArray \<lparr>source = [0x00, 0xFF, 0x00, 0x00], f_bytelength = 1,
                           f_bitlength = 8, f_byteoffset = 1, f_offset = 0\<rparr>]\<rparr>"

definition store_file1 :: heap where
  "store_file1 = \<lparr>bytearrays = [[0x7F, 0x00]],
     objects = objects store_file
       @ [InMemory ByteArray \<lparr>rawarray = 0, m_offset = 1, m_bitlength = 8\<rparr>]\<rparr>"

definition store_file2 :: heap where
  "store_file2 = \<lparr>bytearrays = [[0x7F, 0x00], [0xFE]],
     objects = objects store_file1
       @ [InMemory ByteArray \<lparr>rawarray = 1, m_offset = 0, m_bitlength = 8\<rparr>]\<rparr>"

text \<open>
  A file-backed buffer \<open>a\<close> with the bits 1111 and an in-memory buffer \<open>b\<close> with the bits
  1111 at offset 4; then the store after \<^verbatim>\<open>c = copy(b)\<close>, after
  \<^verbatim>\<open>c.prependarray(a)\<close> and after \<^verbatim>\<open>slice(c, 4, 0)\<close>.
\<close>

definition store_pre :: heap where
  "store_pre = \<lparr>bytearrays = [[0x0F]],
     objects = [FileArray \<lparr>source = [0xF0], f_bytelength = 1, f_bitlength = 4,
                           f_byteoffset = 0, f_offset = 0\<rparr>,
                InMemory ByteArray \<lparr>rawarray = 0, m_offset = 4, m_bitlength = 4\<rparr>]\<rparr>"

definition store_pre1 :: heap where
  "store_pre1 = \<lparr>bytearrays = [[0x0F], [0x0F]],
     objects = objects store_pre
       @ [InMemory ByteArray \<lparr>rawarray = 1, m_offset = 4, m_bitlength = 4\<rparr>]\<rparr>"

definition store_pre2 :: heap where
  "store_pre2 = \<lparr>bytearrays = [[0x0F], [0x0F], [0xFF]],
     objects = objects store_pre
       @ [InMemory ByteArray \<lparr>rawarray = 2, m_offset = 0, m_bitlength = 8\<rparr>,
          InMemory ByteArray \<lparr>rawarray = 2, m_offset = 0, m_bitlength = 4\<rparr>]\<rparr>"

definition store_pre3 :: heap where
  "store_pre3 = \<lparr>bytearrays = bytearrays store_pre2,
     objects = objects store_pre2
       @ [InMemory ByteArray \<lparr>rawarray = 2, m_offset = 0, m_bitlength = 4\<rparr>]\<rparr>"

text \<open>
  A buffer of four bits over two bytes of storage and a buffer with the bits 0000; then
  the store after \<^verbatim>\<open>c = copy(a)\<close>, after \<^verbatim>\<open>c.appendarray(b)\<close> and after
  \<^verbatim>\<open>slice(c, 4, 4)\<close>.
\<close>

definition store_ff :: heap where
  "store_ff = \<lparr>bytearrays = [[0xFF, 0xFF], [0x00]],
     objects = [InMemory ByteArray \<lparr>rawarray = 0, m_offset = 0, m_bitlength = 4\<rparr>,
                InMemory ByteArray \<lparr>rawarray = 1, m_offset = 0, m_bitlength = 4\<rparr>]\<rparr>"

definition store_ff1 :: heap where
  "store_ff1 = \<lparr>bytearrays = [[0xFF, 0xFF], [0x00], [0xFF, 0xFF]],
     objects = objects store_ff
       @ [InMemory ByteArray \<lparr>rawarray = 2, m_offset = 0, m_bitlength = 4\<rparr>]\<rparr>"

definition store_ff2 :: heap where
  "store_ff2 = \<lparr>bytearrays = [[0xFF, 0xFF], [0x00], [0xFF, 0xF0], [0x00]],
     objects = objects store_ff
       @ [InMemory ByteArray \<lparr>rawarray = 2, m_offset = 0, m_bitlength = 8\<rparr>,
          InMemory ByteArray \<lparr>rawarray = 3, m_offset = 4, m_bitlength = 4\<rparr>]\<rparr>"

definition store_ff3 :: heap where
  "store_ff3 = \<lparr>bytearrays = bytearrays store_ff2,
     objects = objects store_ff2
       @ [InMemory ByteArray \<lparr>rawarray = 2, m_offset = 4, m_bitlength = 4\<rparr>]\<rparr>"

text \<open>
  A buffer with the six bits 110011 and a buffer with the bits 10 at offset 6; then the
  store after \<^verbatim>\<open>c = copy(a)\<close> and after \<^verbatim>\<open>c.appendarray(b)\<close>.
\<close>

definition store_join :: heap where
  "store_join = \<lparr>bytearrays = [[0xCC], [0x02]],
     objects = [InMemory ByteArray \<lparr>rawarray = 0, m_offset = 0, m_bitlength = 6\<rparr>,
                InMemory ByteArray \<lparr>rawarray = 1, m_offset = 6, m_bitlength = 2\<rparr>]\<rparr>"

definition store_join1 :: heap where
  "store_join1 = \<lparr>bytearrays = [[0xCC], [0x02], [0xCC]],
     objects = objects store_join
       @ [InMemory ByteArray \<lparr>rawarray = 2, m_offset = 0, m_bitlength = 6\<rparr>]\<rparr>"

definition store_join2 :: heap where
  "store_join2 = \<lparr>bytearrays = [[0xCC], [0x02], [0xCE], [0x02]],
     objects = objects store_join
       @ [InMemory ByteArray \<lparr>rawarray = 2, m_offset = 0, m_bitlength = 8\<rparr>,
          InMemory ByteArray \<lparr>rawarray = 3, m_offset = 6, m_bitlength = 2\<rparr>]\<rparr>"

text \<open>The store with no object, in which \<^verbatim>\<open>FileArray(source, 8, 8)\<close> makes \<open>store_file\<close>.\<close>

definition store_empty :: heap where
  "store_empty = \<lparr>bytearrays = [], objects = []\<rparr>"

text \<open>
  A buffer of sixteen bits over two bytes, and the store after \<^verbatim>\<open>slice(ba, 8, 8)\<close>, the
  view of its second byte.
\<close>

definition store_abcd :: heap where
  "store_abcd = \<lparr>bytearrays = [[0xAB, 0xCD]],
     objects = [InMemory ByteArray \<lparr>rawarray = 0, m_offset = 0, m_bitlength = 16\<rparr>]\<rparr>"

definition store_abcd1 :: heap where
  "store_abcd1 = \<lparr>bytearrays = [[0xAB, 0xCD]],
     objects = objects store_abcd
       @ [InMemory ByteArray \<lparr>rawarray = 0, m_offset = 8, m_bitlength = 8\<rparr>]\<rparr>"

text \<open>The store \<open>store_b4\<close> after \<^verbatim>\<open>offsetcopy(s, 0)\<close> of its buffer.\<close>

definition store_b4_copy :: heap where
  "store_b4_copy = \<lparr>bytearrays = [[0xB4], [0xD0]],
     objects = objects store_b4
       @ [InMemory ByteArray \<lparr>rawarray = 1, m_offset = 0, m_bitlength = 4\<rparr>]\<rparr>"

text \<open>
  The four bits 1111 twice: at offset 0 of the byte \<^verbatim>\<open>0xF0\<close> and at offset 4 of the byte
  \<^verbatim>\<open>0x0F\<close>.
\<close>

definition store_f00f :: heap where
  "store_f00f = \<lparr>bytearrays = [[0xF0], [0x0F]],
     objects = [InMemory ByteArray \<lparr>rawarray = 0, m_offset = 0, m_bitlength = 4\<rparr>,
                InMemory ByteArray \<lparr>rawarray = 1, m_offset = 4, m_bitlength = 4\<rparr>]\<rparr>"

section \<open>Basic facts\<close>

lemma bindE_simps [simp]: "bindE (Inl e) f = Inl e" "bindE (Inr v) f = f v"
  by (simp_all add: bindE_def)

lemma mask128_bit: "k < 8 \<Longrightarrow> (v AND drop_bit k (128::int) \<noteq> 0) = bit v (7 - k)"
  using drop_bit_exp_eq[of k 7, where ?'a = int] by (simp add: and_exp_eq_0_iff_not_bit)

lemma ceil8_less: "(r < (x + 7) div 8) = (r * 8 < (x::int))"
  by presburger

section \<open>Fields of bits\<close>

lemma m255: "(255::int) = mask 8" by (simp add: mask_eq_exp_minus_1)
lemma m65535: "(65535::int) = mask 16" by (simp add: mask_eq_exp_minus_1)
lemma dm255: "k \<le> 8 \<Longrightarrow> drop_bit k (255::int) = mask (8 - k)"
  by (simp add: m255 drop_bit_mask_eq)

lemma divmod8: "0 \<le> r \<Longrightarrow> r < 8 \<Longrightarrow> (8 * k + r) div 8 = (k::int) \<and> (8 * k + r) mod 8 = r"
  by auto

lemma byte_bits:
  assumes "0 \<le> k" "k < int (length d)"
  shows "bit (d ! nat k) t = (t < 8 \<and> bit_at d (8 * k + 7 - int t))"
proof (cases "t < 8")
  case True
  have e: "8 * k + 7 - int t = 8 * k + (7 - int t)" by simp
  have "(8 * k + (7 - int t)) div 8 = k \<and> (8 * k + (7 - int t)) mod 8 = 7 - int t"
    using True by (intro divmod8) auto
  then show ?thesis using True unfolding bit_at_def e by simp
next
  case False
  then show ?thesis by (auto dest: bit_imp_le_length)
qed

lemma is_field_byte:
  "0 \<le> k \<Longrightarrow> k < int (length d) \<Longrightarrow> is_field (uint (d ! nat k)) d (8 * k + 7) 8"
  by (auto simp add: is_field_def bit_uint_iff byte_bits)

lemma is_field_two_bytes:
  assumes "0 \<le> k" "k + 1 < int (length d)"
  shows "is_field (push_bit 8 (uint (d ! nat k)) + uint (d ! nat (k + 1))) d (8 * k + 15) 16"
proof -
  let ?u = "uint (d ! nat k)" and ?v = "uint (d ! nat (k + 1))"
  have k1: "0 \<le> k + 1" "k < int (length d)" using assms by auto
  have "push_bit 8 ?u + ?v = push_bit 8 ?u OR ?v"
    by (rule disjunctive_add) (auto simp add: bit_simps dest: bit_imp_le_length)
  moreover have "bit (push_bit 8 ?u OR ?v) t = (int t < 16 \<and> bit_at d (8 * k + 15 - int t))" for t
  proof (cases "t < 8")
    case True
    have e: "8 * (k + 1) + 7 - int t = 8 * k + 15 - int t" by simp
    have "bit (d ! nat (k + 1)) t = (t < 8 \<and> bit_at d (8 * k + 15 - int t))"
      using byte_bits [OF k1(1) assms(2), of t] unfolding e .
    with True show ?thesis by (simp add: bit_simps)
  next
    case False
    have e: "8 * k + 7 - int (t - 8) = 8 * k + 15 - int t" using False by simp
    have "bit (d ! nat k) (t - 8) = (t - 8 < 8 \<and> bit_at d (8 * k + 15 - int t))"
      using byte_bits [OF assms(1) k1(2), of "t - 8"] unfolding e .
    moreover have "\<not> bit (d ! nat (k + 1)) t"
      using False by (auto dest: bit_imp_le_length)
    ultimately show ?thesis
      using False by (auto simp add: bit_simps)
  qed
  ultimately show ?thesis by (simp add: is_field_def)
qed

lemma is_field_drop:
  "is_field v d p w \<Longrightarrow> is_field (drop_bit s v) d (p - int s) (w - int s)"
  by (auto simp add: is_field_def bit_simps algebra_simps)

lemma is_field_mask:
  "is_field v d p w \<Longrightarrow> is_field (v AND mask m) d p (min w (int m))"
  by (auto simp add: is_field_def bit_simps)

lemma is_field_push_mask_drop:
  assumes "is_field v d p w" "s \<le> r"
  shows "is_field (drop_bit r (push_bit s v AND mask m)) d (p - int (r - s))
           (min w (int m - int s) - int (r - s))"
proof -
  have "t + r - s = t + (r - s)" for t using assms(2) by simp
  then show ?thesis
    using assms by (auto simp add: is_field_def bit_simps algebra_simps)
qed

lemma is_field_cong: "is_field v d p w \<Longrightarrow> p = p' \<Longrightarrow> w = w' \<Longrightarrow> is_field v d p' w'"
  by simp

lemma is_field_eq_iff:
  assumes "is_field va da (oa + hi - 1) (hi - lo)" "is_field vb db (ob + hi - 1) (hi - lo)"
  shows "(va = vb) = (\<forall>i. lo \<le> i \<and> i < hi \<longrightarrow> bit_at da (oa + i) = bit_at db (ob + i))"
proof
  assume "va = vb"
  show "\<forall>i. lo \<le> i \<and> i < hi \<longrightarrow> bit_at da (oa + i) = bit_at db (ob + i)"
  proof (intro allI impI)
    fix i assume i: "lo \<le> i \<and> i < hi"
    define t where "t = nat (hi - 1 - i)"
    have t: "int t = hi - 1 - i" "int t < hi - lo" using i by (auto simp add: t_def)
    have "bit va t = bit vb t" using \<open>va = vb\<close> by simp
    then have "bit_at da (oa + hi - 1 - int t) = bit_at db (ob + hi - 1 - int t)"
      using assms t(2) by (simp add: is_field_def)
    moreover have "oa + hi - 1 - int t = oa + i" "ob + hi - 1 - int t = ob + i"
      using t(1) by auto
    ultimately show "bit_at da (oa + i) = bit_at db (ob + i)" by simp
  qed
next
  assume h: "\<forall>i. lo \<le> i \<and> i < hi \<longrightarrow> bit_at da (oa + i) = bit_at db (ob + i)"
  show "va = vb"
  proof (rule bit_eqI)
    fix t
    show "bit va t = bit vb t"
    proof (cases "int t < hi - lo")
      case True
      then have "lo \<le> hi - 1 - int t \<and> hi - 1 - int t < hi" by auto
      with h have "bit_at da (oa + (hi - 1 - int t)) = bit_at db (ob + (hi - 1 - int t))"
        by blast
      moreover have "oa + (hi - 1 - int t) = oa + hi - 1 - int t"
        "ob + (hi - 1 - int t) = ob + hi - 1 - int t" by auto
      ultimately show ?thesis using assms True by (simp add: is_field_def)
    next
      case False
      then show ?thesis using assms by (simp add: is_field_def)
    qed
  qed
qed

lemma agree_split:
  assumes "lo \<le> mid" "mid \<le> hi"
  shows "agree da oa db ob lo hi = (agree da oa db ob lo mid \<and> agree da oa db ob mid hi)"
proof
  assume "agree da oa db ob lo hi"
  then show "agree da oa db ob lo mid \<and> agree da oa db ob mid hi"
    using assms by (simp add: agree_def)
next
  assume h: "agree da oa db ob lo mid \<and> agree da oa db ob mid hi"
  show "agree da oa db ob lo hi"
    unfolding agree_def
  proof (intro allI impI)
    fix i assume "lo \<le> i \<and> i < hi"
    then have "(lo \<le> i \<and> i < mid) \<or> (mid \<le> i \<and> i < hi)" by linarith
    with h show "bit_at da (oa + i) = bit_at db (ob + i)"
      unfolding agree_def by blast
  qed
qed

lemma agree_split3:
  assumes "lo \<le> m1" "m1 \<le> m2" "m2 \<le> hi"
  shows "agree da oa db ob lo hi
         = (agree da oa db ob lo m1 \<and> agree da oa db ob m1 m2 \<and> agree da oa db ob m2 hi)"
proof -
  have "agree da oa db ob lo hi = (agree da oa db ob lo m1 \<and> agree da oa db ob m1 hi)"
    by (rule agree_split) (use assms in auto)
  moreover have "agree da oa db ob m1 hi = (agree da oa db ob m1 m2 \<and> agree da oa db ob m2 hi)"
    by (rule agree_split) fact+
  ultimately show ?thesis by simp
qed

lemma agree_bytes:
  "(\<forall>x. lo \<le> x \<and> x < hi \<longrightarrow> agree da oa db ob (8 * x - c) (8 * x + 8 - c))
   = agree da oa db ob (8 * lo - c) (8 * hi - c)"
proof
  assume h: "\<forall>x. lo \<le> x \<and> x < hi \<longrightarrow> agree da oa db ob (8 * x - c) (8 * x + 8 - c)"
  show "agree da oa db ob (8 * lo - c) (8 * hi - c)"
    unfolding agree_def
  proof (intro allI impI)
    fix i assume i: "8 * lo - c \<le> i \<and> i < 8 * hi - c"
    define x where "x = (i + c) div 8"
    have e: "i + c = 8 * x + (i + c) mod 8" unfolding x_def by simp
    have m: "0 \<le> (i + c) mod 8" "(i + c) mod 8 < 8" by simp_all
    have "lo \<le> x \<and> x < hi \<and> 8 * x - c \<le> i \<and> i < 8 * x + 8 - c"
      using i e m by linarith
    with h show "bit_at da (oa + i) = bit_at db (ob + i)"
      unfolding agree_def by blast
  qed
next
  assume h: "agree da oa db ob (8 * lo - c) (8 * hi - c)"
  show "\<forall>x. lo \<le> x \<and> x < hi \<longrightarrow> agree da oa db ob (8 * x - c) (8 * x + 8 - c)"
    unfolding agree_def
  proof (intro allI impI)
    fix x i assume "lo \<le> x \<and> x < hi" "8 * x - c \<le> i \<and> i < 8 * x + 8 - c"
    then have "8 * lo - c \<le> i \<and> i < 8 * hi - c" by linarith
    with h show "bit_at da (oa + i) = bit_at db (ob + i)"
      unfolding agree_def by blast
  qed
qed

lemma is_field_agree:
  assumes "is_field va da pa wa" "is_field vb db pb wb"
    and "pa = oa + hi - 1" "pb = ob + hi - 1" "wa = hi - lo" "wb = hi - lo"
  shows "(va = vb) = agree da oa db ob lo hi"
  using is_field_eq_iff [of va da oa hi lo vb db ob] assms by (simp add: agree_def)

lemma getitem_nth: "0 \<le> i \<Longrightarrow> i < int (length d) \<Longrightarrow> getitem d i = Inr (uint (d ! nat i))"
  by (simp add: getitem_def)

lemma all_loop_Inr:
  "(\<And>x. x \<in> set xs \<Longrightarrow> P x = Inr (Q x)) \<Longrightarrow> all_loop P xs = Inr (\<forall>x\<in>set xs. Q x)"
  by (induction xs) auto

lemma set_py_range: "set (py_range lo hi) = {lo..<hi}"
proof -
  have "(\<lambda>k. lo + int k) ` {0..<nat (hi - lo)} = {lo..<hi}"
  proof (intro set_eqI iffI)
    fix x assume "x \<in> {lo..<hi}"
    then have "x = lo + int (nat (x - lo))" "nat (x - lo) \<in> {0..<nat (hi - lo)}" by auto
    then show "x \<in> (\<lambda>k. lo + int k) ` {0..<nat (hi - lo)}" by blast
  qed auto
  then show ?thesis by (simp add: py_range_def)
qed

lemma in_memory_geometry:
  assumes "m_offset m = 8 * k + bo" "0 \<le> bo" "bo < 8" "0 \<le> k"
    and "8 * k + bo + m_bitlength m - 1 = 8 * l + r" "0 \<le> r" "r < 8" "0 < m_bitlength m"
  shows "offset (InMemory c m) mod 8 = bo" "byteoffset (InMemory c m) = k"
    "bytelength (InMemory c m) = l - k + 1" "final_bits (InMemory c m) = r + 1"
    "bitlength (InMemory c m) = m_bitlength m" "offset (InMemory c m) = 8 * k + bo"
    "k \<le> l"
proof -
  have d1: "(8 * k + bo) div 8 = k" "(8 * k + bo) mod 8 = bo"
    using divmod8 [of bo k] assms by auto
  have d2: "(8 * l + r) div 8 = l" using divmod8 [of r l] assms by auto
  have l0: "0 \<le> l" "k \<le> l" using assms by auto
  show "offset (InMemory c m) mod 8 = bo" "byteoffset (InMemory c m) = k"
    "bitlength (InMemory c m) = m_bitlength m" "offset (InMemory c m) = 8 * k + bo" "k \<le> l"
    using assms d1 l0 by (simp_all add: offset_def byteoffset_def bitlength_def)
  show "bytelength (InMemory c m) = l - k + 1"
    using assms d1 d2 l0 by (simp add: bytelength_def Let_def)
  have "(8 * k + bo + m_bitlength m) mod 8 = (if r = 7 then 0 else r + 1)"
  proof (cases "r = 7")
    case True
    then have "8 * k + bo + m_bitlength m = 8 * (l + 1) + 0" using assms(5) by simp
    then show ?thesis using True divmod8 [of 0 "l + 1"] by simp
  next
    case False
    then have "8 * k + bo + m_bitlength m = 8 * l + (r + 1)" "r + 1 < 8"
      using assms(5,7) by simp_all
    then show ?thesis using False divmod8 [of "r + 1" l] assms(6) by simp
  qed
  then show "final_bits (InMemory c m) = r + 1"
    using assms by (simp add: final_bits_def offset_def bitlength_def Let_def)
qed

lemma is_field_single_byte_val:
  assumes k: "0 \<le> k" "k < int (length d)" and bo: "0 \<le> bo" and n: "0 < n" "bo + n \<le> 8"
  shows "single_byte_val (getitem d) k bo n
           = Inr (drop_bit (nat (8 - n)) (push_bit (nat bo) (uint (d ! nat k)) AND 255))"
    and "is_field (drop_bit (nat (8 - n)) (push_bit (nat bo) (uint (d ! nat k)) AND 255))
           d (8 * k + bo + n - 1) n"
proof -
  show "single_byte_val (getitem d) k bo n
           = Inr (drop_bit (nat (8 - n)) (push_bit (nat bo) (uint (d ! nat k)) AND 255))"
    using k n bo by (simp add: single_byte_val_def getitem_nth rshift_def)
  have le: "nat bo \<le> nat (8 - n)" using bo n by simp
  have "is_field (drop_bit (nat (8 - n)) (push_bit (nat bo) (uint (d ! nat k)) AND mask 8))
          d (8 * k + 7 - int (nat (8 - n) - nat bo))
          (min 8 (int 8 - int (nat bo)) - int (nat (8 - n) - nat bo))"
    by (rule is_field_push_mask_drop [OF is_field_byte [OF k] le])
  then show "is_field (drop_bit (nat (8 - n)) (push_bit (nat bo) (uint (d ! nat k)) AND 255))
           d (8 * k + bo + n - 1) n"
    unfolding m255 using bo n by (elim is_field_cong) auto
qed

lemma spare_bits:
  assumes "bo + n = 8 * q + r + 1" "0 \<le> r" "r < 8"
  shows "(if 8 - (bo + n) mod 8 = 8 then 0 else 8 - (bo + n) mod 8) = 7 - (r::int)"
proof (cases "r = 7")
  case True
  then have "bo + n = 8 * (q + 1) + 0" using assms by simp
  then show ?thesis using True divmod8 [of 0 "q + 1"] by simp
next
  case False
  then have "bo + n = 8 * q + (r + 1)" "r + 1 < 8" using assms by simp_all
  then show ?thesis using divmod8 [of "r + 1" q] assms(2) by simp
qed

lemma equal_aligned_in_memory:
  assumes a: "m_offset ma = 8 * ka + bo" "m_bitlength ma = n"
      and b: "m_offset mb = 8 * kb + bo" "m_bitlength mb = n"
      and bo: "0 \<le> bo" "bo < 8" and k: "0 \<le> ka" "0 \<le> kb" and n: "0 < n"
      and la: "8 * ka + bo + n - 1 = 8 * la + r" "0 \<le> r" "r < 8"
      and cov: "la < int (length da)" "kb + (la - ka) < int (length db)"
  shows "equal_aligned (getitem da) (getitem db) (InMemory ca ma) (InMemory cb mb)
           = Inr (agree da (8 * ka + bo) db (8 * kb + bo) 0 n)"
proof -
  define lb where "lb = kb + (la - ka)"
  have lb: "8 * kb + bo + n - 1 = 8 * lb + r" using la(1) by (simp add: lb_def)
  have la': "8 * ka + bo + m_bitlength ma - 1 = 8 * la + r" "0 < m_bitlength ma"
    using la n a by simp_all
  have lb': "8 * kb + bo + m_bitlength mb - 1 = 8 * lb + r" "0 < m_bitlength mb"
    using lb n b by simp_all
  note ga = in_memory_geometry [OF a(1) bo k(1) la'(1) la(2,3) la'(2)]
  note gb = in_memory_geometry [OF b(1) bo k(2) lb'(1) la(2,3) lb'(2)]
  have sp: "(if 8 - (bo + n) mod 8 = 8 then 0 else 8 - (bo + n) mod 8) = 7 - r"
    using spare_bits [of bo n "la - ka" r] la by simp
  have kl: "ka \<le> la" "kb \<le> lb" using ga(7) gb(7) by simp_all
  have lens: "ka < int (length da)" "kb < int (length db)" "lb < int (length db)" "0 \<le> la" "0 \<le> lb"
    using kl cov k by (simp_all add: lb_def)
  show ?thesis
  proof (cases "la = ka")
    case True
    have n8: "bo + n \<le> 8" using la True by simp
    note va = is_field_single_byte_val [OF k(1) lens(1) bo(1) n n8]
    note vb = is_field_single_byte_val [OF k(2) lens(2) bo(1) n n8]
    have "(drop_bit (nat (8 - n)) (push_bit (nat bo) (uint (da ! nat ka)) AND 255)
           = drop_bit (nat (8 - n)) (push_bit (nat bo) (uint (db ! nat kb)) AND 255))
          = agree da (8 * ka + bo) db (8 * kb + bo) 0 n"
      by (rule is_field_agree [OF va(2) vb(2)]) simp_all
    then show ?thesis
      unfolding equal_aligned_def Let_def ga(1-5) gb(1-5) a(2) b(2)
      using True va(1) vb(1) by simp
  next
    case False
    then have lt: "ka < la" using kl by simp
    let ?x = "uint (da ! nat ka)" and ?y = "uint (db ! nat kb)"
    let ?xl = "uint (da ! nat la)" and ?yl = "uint (db ! nat lb)"
    have first: "(?x AND drop_bit (nat bo) 255 = ?y AND drop_bit (nat bo) 255)
          = agree da (8 * ka + bo) db (8 * kb + bo) 0 (8 - bo)"
    proof -
      have d: "drop_bit (nat bo) (255::int) = mask (8 - nat bo)" using bo by (simp add: dm255)
      show ?thesis unfolding d
        by (rule is_field_agree [OF is_field_mask [OF is_field_byte [OF k(1) lens(1)]]
              is_field_mask [OF is_field_byte [OF k(2) lens(2)]]]) (use bo in auto)
    qed
    have last: "(drop_bit (nat (7 - r)) ?xl = drop_bit (nat (7 - r)) ?yl)
          = agree da (8 * ka + bo) db (8 * kb + bo) (8 * la - (8 * ka + bo)) n"
      by (rule is_field_agree [OF is_field_drop [OF is_field_byte [OF lens(4) cov(1)]]
              is_field_drop [OF is_field_byte [OF lens(5) lens(3)]]])
         (use la lb in auto)
    have body: "bindE (getitem da x) (\<lambda>u. bindE (getitem db (kb - ka + x)) (\<lambda>v. Inr (u = v)))
          = Inr (agree da (8 * ka + bo) db (8 * kb + bo) (8 * x - (8 * ka + bo)) (8 * x + 8 - (8 * ka + bo)))"
      if "x \<in> set (py_range (1 + ka) la)" for x
    proof -
      have x: "1 + ka \<le> x" "x < la" using that by (simp_all add: set_py_range)
      have xa: "0 \<le> x" "x < int (length da)" using x k cov by simp_all
      have xb: "0 \<le> kb - ka + x" "kb - ka + x < int (length db)"
        using x k lens by (simp_all add: lb_def)
      have "(uint (da ! nat x) = uint (db ! nat (kb - ka + x)))
           = agree da (8 * ka + bo) db (8 * kb + bo) (8 * x - (8 * ka + bo)) (8 * x + 8 - (8 * ka + bo))"
        by (rule is_field_agree [OF is_field_byte [OF xa] is_field_byte [OF xb]]) auto
      then show ?thesis by (simp add: getitem_nth xa xb)
    qed
    have loop: "all_loop (\<lambda>x. bindE (getitem da x) (\<lambda>u. bindE (getitem db (kb - ka + x)) (\<lambda>v. Inr (u = v))))
            (py_range (1 + ka) la)
          = Inr (agree da (8 * ka + bo) db (8 * kb + bo) (8 - bo) (8 * la - (8 * ka + bo)))"
    proof -
      have "(\<forall>x\<in>set (py_range (1 + ka) la).
               agree da (8 * ka + bo) db (8 * kb + bo) (8 * x - (8 * ka + bo)) (8 * x + 8 - (8 * ka + bo)))
            = agree da (8 * ka + bo) db (8 * kb + bo) (8 * (1 + ka) - (8 * ka + bo)) (8 * la - (8 * ka + bo))"
        using agree_bytes [of "1 + ka" la da "8 * ka + bo" db "8 * kb + bo" "8 * ka + bo"]
        by (simp add: set_py_range Ball_def)
      moreover have "8 * (1 + ka) - (8 * ka + bo) = 8 - bo" by simp
      moreover have "all_loop (\<lambda>x. bindE (getitem da x) (\<lambda>u. bindE (getitem db (kb - ka + x)) (\<lambda>v. Inr (u = v))))
            (py_range (1 + ka) la)
          = Inr (\<forall>x\<in>set (py_range (1 + ka) la).
               agree da (8 * ka + bo) db (8 * kb + bo) (8 * x - (8 * ka + bo)) (8 * x + 8 - (8 * ka + bo)))"
        by (rule all_loop_Inr) (rule body)
      ultimately show ?thesis by simp
    qed
    have split: "agree da (8 * ka + bo) db (8 * kb + bo) 0 n
        = (agree da (8 * ka + bo) db (8 * kb + bo) 0 (8 - bo)
           \<and> agree da (8 * ka + bo) db (8 * kb + bo) (8 - bo) (8 * la - (8 * ka + bo))
           \<and> agree da (8 * ka + bo) db (8 * kb + bo) (8 * la - (8 * ka + bo)) n)"
    proof -
      have "0 \<le> 8 - bo" "8 - bo \<le> 8 * la - (8 * ka + bo)" "8 * la - (8 * ka + bo) \<le> n"
        using bo lt la by simp_all
      then show ?thesis by (rule agree_split3)
    qed
    have e1: "ka + (la - ka + 1) - 1 = la" "kb + (lb - kb + 1) - 1 = lb" by simp_all
    show ?thesis
      unfolding equal_aligned_def Let_def ga(1-5) gb(1-5) a(2) b(2) sp e1 split
      using False first last loop lens cov k
      by (simp add: getitem_nth)
  qed
qed

lemma is_field_two_byte_val:
  assumes k: "0 \<le> k" "k + 1 < int (length d)" and bo: "0 \<le> bo" and n: "0 < n" "bo + n \<le> 16"
  shows "is_field (drop_bit (nat (16 - n))
            (push_bit (nat bo) (push_bit 8 (uint (d ! nat k)) + uint (d ! nat (k + 1))) AND 65535))
           d (8 * k + bo + n - 1) n"
proof -
  have le: "nat bo \<le> nat (16 - n)" using bo n by simp
  have "is_field (drop_bit (nat (16 - n))
            (push_bit (nat bo) (push_bit 8 (uint (d ! nat k)) + uint (d ! nat (k + 1))) AND mask 16))
          d (8 * k + 15 - int (nat (16 - n) - nat bo))
          (min 16 (int 16 - int (nat bo)) - int (nat (16 - n) - nat bo))"
    by (rule is_field_push_mask_drop [OF is_field_two_bytes [OF k] le])
  then show ?thesis
    unfolding m65535 using bo n by (elim is_field_cong) auto
qed

lemma byte_span_cases:
  assumes "8 * (la - ka) + ra - bA = 8 * (lb - kb) + rb - (bB::int)"
    and "0 \<le> ra" "ra < 8" "0 \<le> rb" "rb < 8" "0 \<le> bA" "bA < bB" "bB < 8"
  shows "(lb - kb = la - ka \<and> rb = ra + (bB - bA)) \<or> (lb - kb = la - ka + 1 \<and> rb = ra + (bB - bA) - 8)"
proof -
  define D where "D = lb - kb - (la - ka)"
  have e: "8 * D = ra + (bB - bA) - rb" using assms(1) by (simp add: D_def)
  have "- 1 < D" "D < 2" using e assms(2-8) by linarith+
  then have "D = 0 \<or> D = 1" by linarith
  then show ?thesis using e by (auto simp add: D_def)
qed

lemma equal_misaligned_in_memory:
  assumes a: "m_offset ma = 8 * ka + bA" "m_bitlength ma = n"
      and b: "m_offset mb = 8 * kb + bB" "m_bitlength mb = n"
      and bo: "0 \<le> bA" "bA < bB" "bB < 8" and k: "0 \<le> ka" "0 \<le> kb" and n: "0 < n"
      and la: "8 * ka + bA + n - 1 = 8 * la + ra" "0 \<le> ra" "ra < 8"
      and lb: "8 * kb + bB + n - 1 = 8 * lb + rb" "0 \<le> rb" "rb < 8"
      and cov: "la < int (length da)" "lb < int (length db)"
  shows "equal_misaligned (getitem da) (getitem db) (InMemory ca ma) (InMemory cb mb)
           = Inr (agree da (8 * ka + bA) db (8 * kb + bB) 0 n)"
proof -
  let ?oa = "8 * ka + bA" and ?ob = "8 * kb + bB"
  define shift where "shift = nat (bB - bA)"
  have shift: "int shift = bB - bA" "0 < shift" "shift < 8" using bo by (simp_all add: shift_def)
  have bA8: "bA < 8" using bo by simp
  have la': "8 * ka + bA + m_bitlength ma - 1 = 8 * la + ra" "0 < m_bitlength ma"
    using la n a by simp_all
  have lb': "8 * kb + bB + m_bitlength mb - 1 = 8 * lb + rb" "0 < m_bitlength mb"
    using lb n b by simp_all
  have bB0: "0 \<le> bB" using bo by simp
  note ga = in_memory_geometry [OF a(1) bo(1) bA8 k(1) la'(1) la(2,3) la'(2)]
  note gb = in_memory_geometry [OF b(1) bB0 bo(3) k(2) lb'(1) lb(2,3) lb'(2)]
  have kl: "ka \<le> la" "kb \<le> lb" using ga(7) gb(7) by simp_all
  have lens: "ka < int (length da)" "kb < int (length db)" "0 \<le> la" "0 \<le> lb"
    using kl cov k by simp_all
  have span: "(lb - kb = la - ka \<and> rb = ra + (bB - bA)) \<or> (lb - kb = la - ka + 1 \<and> rb = ra + (bB - bA) - 8)"
    by (rule byte_span_cases) (use la lb bo in simp_all)
  have sh: "nat (bB - bA) = shift" by (simp add: shift_def)
  consider (one) "lb = kb" | (a_one) "la = ka" "lb \<noteq> kb" | (many) "la \<noteq> ka" "lb \<noteq> kb"
    by blast
  then show ?thesis
  proof cases
    case one
    then have la_ka: "la = ka" using span kl by auto
    have n8: "bA + n \<le> 8" "bB + n \<le> 8" using la lb one la_ka by simp_all
    note va = is_field_single_byte_val [OF k(1) lens(1) bo(1) n n8(1)]
    note vb = is_field_single_byte_val [OF k(2) lens(2) bB0 n n8(2)]
    have "(drop_bit (nat (8 - n)) (push_bit (nat bA) (uint (da ! nat ka)) AND 255)
           = drop_bit (nat (8 - n)) (push_bit (nat bB) (uint (db ! nat kb)) AND 255))
          = agree da ?oa db ?ob 0 n"
      by (rule is_field_agree [OF va(2) vb(2)]) simp_all
    then show ?thesis
      unfolding equal_misaligned_def Let_def ga(1-5) gb(1-5) a(2) b(2)
      using one la_ka va(1) vb(1) by simp
  next
    case a_one
    then have lb1: "lb = kb + 1" using span kl by auto
    have n8: "bA + n \<le> 8" "bB + n \<le> 16" using la lb a_one lb1 by simp_all
    have n16: "\<not> 16 - n < 0" using n8 bo by simp
    have kb1: "kb + 1 < int (length db)" using cov lb1 by simp
    note va = is_field_single_byte_val [OF k(1) lens(1) bo(1) n n8(1)]
    note vb = is_field_two_byte_val [OF k(2) kb1 bB0 n n8(2)]
    have "(drop_bit (nat (8 - n)) (push_bit (nat bA) (uint (da ! nat ka)) AND 255)
           = drop_bit (nat (16 - n))
            (push_bit (nat bB) (push_bit 8 (uint (db ! nat kb)) + uint (db ! nat (kb + 1))) AND 65535))
          = agree da ?oa db ?ob 0 n"
      by (rule is_field_agree [OF va(2) vb]) simp_all
    then show ?thesis
      unfolding equal_misaligned_def Let_def ga(1-5) gb(1-5) a(2) b(2)
      using a_one lb1 va(1) n16 lens kb1 k by (simp add: getitem_nth rshift_def)
  next
    case many
    then have lt: "ka < la" "kb < lb" using kl by simp_all
    define M where "M = 8 * (lb - kb) - bB"
    let ?x = "uint (da ! nat ka)" and ?y = "uint (db ! nat kb)"
    let ?xl = "uint (da ! nat la)" and ?yl = "uint (db ! nat lb)"
    let ?xp = "uint (da ! nat (la - 1))"
    have first: "(drop_bit shift (?x AND drop_bit (nat bA) 255) = ?y AND drop_bit (nat bB) 255)
          = agree da ?oa db ?ob 0 (8 - bB)"
    proof -
      have d: "drop_bit (nat bA) (255::int) = mask (8 - nat bA)"
         "drop_bit (nat bB) (255::int) = mask (8 - nat bB)" using bo by (simp_all add: dm255)
      show ?thesis unfolding d
        by (rule is_field_agree [OF is_field_drop [OF is_field_mask [OF is_field_byte [OF k(1) lens(1)]]]
              is_field_mask [OF is_field_byte [OF k(2) lens(2)]]]) (use bo shift in auto)
    qed
    have body: "bindE (getitem db (kb + x)) (\<lambda>b_val.
                  bindE (getitem da (ka + x - 1)) (\<lambda>u.
                  bindE (getitem da (ka + x)) (\<lambda>v.
                    Inr (drop_bit shift (push_bit 8 u + v) AND 255 = b_val))))
          = Inr (agree da ?oa db ?ob (8 * x - bB) (8 * x + 8 - bB))"
      if "x \<in> set (py_range 1 (lb - kb))" for x
    proof -
      have x: "1 \<le> x" "x < lb - kb" using that by (simp_all add: set_py_range)
      have xa: "0 \<le> ka + x - 1" "ka + x - 1 + 1 < int (length da)" "ka + x - 1 < int (length da)"
          "0 \<le> ka + x" "ka + x < int (length da)"
        using x k cov span by auto
      have xb: "0 \<le> kb + x" "kb + x < int (length db)" using x k cov by simp_all
      have e: "ka + x - 1 + 1 = ka + x" by simp
      have "(drop_bit shift (push_bit 8 (uint (da ! nat (ka + x - 1))) + uint (da ! nat (ka + x))) AND mask 8
               = uint (db ! nat (kb + x)))
           = agree da ?oa db ?ob (8 * x - bB) (8 * x + 8 - bB)"
        by (rule is_field_agree [OF is_field_mask [OF is_field_drop
              [OF is_field_two_bytes [OF xa(1,2), unfolded e]]] is_field_byte [OF xb]])
           (use shift in auto)
      moreover have "getitem da (ka + x - 1) = Inr (uint (da ! nat (ka + x - 1)))"
        by (rule getitem_nth) fact+
      moreover have "getitem da (ka + x) = Inr (uint (da ! nat (ka + x)))"
        by (rule getitem_nth) fact+
      moreover have "getitem db (kb + x) = Inr (uint (db ! nat (kb + x)))"
        by (rule getitem_nth) fact+
      ultimately show ?thesis by (simp add: m255)
    qed
    have loop: "all_loop (\<lambda>x. bindE (getitem db (kb + x)) (\<lambda>b_val.
                  bindE (getitem da (ka + x - 1)) (\<lambda>u.
                  bindE (getitem da (ka + x)) (\<lambda>v.
                    Inr (drop_bit shift (push_bit 8 u + v) AND 255 = b_val)))))
            (py_range 1 (lb - kb))
          = Inr (agree da ?oa db ?ob (8 - bB) M)"
    proof -
      have "(\<forall>x\<in>set (py_range 1 (lb - kb)). agree da ?oa db ?ob (8 * x - bB) (8 * x + 8 - bB))
            = agree da ?oa db ?ob (8 * 1 - bB) (8 * (lb - kb) - bB)"
        using agree_bytes [of 1 "lb - kb" da ?oa db ?ob bB]
        by (simp add: set_py_range Ball_def)
      moreover have "all_loop (\<lambda>x. bindE (getitem db (kb + x)) (\<lambda>b_val.
                  bindE (getitem da (ka + x - 1)) (\<lambda>u.
                  bindE (getitem da (ka + x)) (\<lambda>v.
                    Inr (drop_bit shift (push_bit 8 u + v) AND 255 = b_val)))))
            (py_range 1 (lb - kb))
          = Inr (\<forall>x\<in>set (py_range 1 (lb - kb)). agree da ?oa db ?ob (8 * x - bB) (8 * x + 8 - bB))"
        by (rule all_loop_Inr) (rule body)
      ultimately show ?thesis by (simp add: M_def)
    qed
    have dfb: "drop_bit (nat (8 - (rb + 1))) (255::int) = mask (nat (rb + 1))"
      using lb(2,3) by (simp add: dm255) (simp add: nat_diff_distrib nat_add_distrib)
    have lastb: "is_field (drop_bit (nat (8 - (rb + 1))) ?yl) db (?ob + n - 1) (rb + 1)"
      using lb(2,3)
      by (intro is_field_cong [OF is_field_drop [OF is_field_byte [OF lens(4) cov(2)]]])
         (use lb in auto)
    have last_longer: "(drop_bit (nat (8 - (ra + 1))) ?xl AND drop_bit (nat (8 - (rb + 1))) 255
            = drop_bit (nat (8 - (rb + 1))) ?yl)
          = agree da ?oa db ?ob M n"
      if "lb - kb = la - ka + 1" "rb = ra + (bB - bA) - 8"
      unfolding dfb M_def
      by (rule is_field_agree [OF is_field_mask [OF is_field_drop [OF is_field_byte [OF lens(3) cov(1)]]] lastb])
         (use la lb that bo in auto)
    have la1: "0 \<le> la - 1" "la - 1 + 1 < int (length da)" using lt k cov by simp_all
    have e1: "la - 1 + 1 = la" by simp
    have last_same: "(drop_bit (nat (8 - (ra + 1))) (push_bit 8 ?xp + ?xl) AND drop_bit (nat (8 - (rb + 1))) 255
            = drop_bit (nat (8 - (rb + 1))) ?yl)
          = agree da ?oa db ?ob M n"
      if "lb - kb = la - ka" "rb = ra + (bB - bA)"
      unfolding dfb M_def
      by (rule is_field_agree [OF is_field_mask [OF is_field_drop
            [OF is_field_two_bytes [OF la1, unfolded e1]]] lastb])
         (use la lb that bo in auto)
    have split: "agree da ?oa db ?ob 0 n
        = (agree da ?oa db ?ob 0 (8 - bB)
           \<and> agree da ?oa db ?ob (8 - bB) M
           \<and> agree da ?oa db ?ob M n)"
    proof -
      have "0 \<le> 8 - bB" "8 - bB \<le> M" "M \<le> n"
        using bo lt lb by (simp_all add: M_def)
      then show ?thesis by (rule agree_split3)
    qed
    have e2: "kb + (lb - kb + 1) - 1 = lb" "ka + (la - ka + 1) - 1 = la"
       "ka + (la - ka + 1) - 2 = la - 1" "lb - kb + 1 - 1 = lb - kb" by simp_all
    from span show ?thesis
    proof
      assume same: "lb - kb = la - ka \<and> rb = ra + (bB - bA)"
      then have c: "\<not> lb - kb + 1 > la - ka + 1" "la - ka + 1 = lb - kb + 1" by simp_all
      have last: "(drop_bit (nat (8 - (ra + 1))) (push_bit 8 ?xp + ?xl) AND drop_bit (nat (8 - (rb + 1))) 255
            = drop_bit (nat (8 - (rb + 1))) ?yl) = agree da ?oa db ?ob M n"
        by (rule last_same) (use same in auto)
      show ?thesis
        unfolding equal_misaligned_def Let_def ga(1-5) gb(1-5) a(2) b(2) sh e2 split
        using many first loop last lens cov k c la1
        by (simp add: getitem_nth)
    next
      assume longer: "lb - kb = la - ka + 1 \<and> rb = ra + (bB - bA) - 8"
      then have c: "lb - kb + 1 > la - ka + 1" "lb - kb + 1 = la - ka + 1 + 1" by simp_all
      have last: "(drop_bit (nat (8 - (ra + 1))) ?xl AND drop_bit (nat (8 - (rb + 1))) 255
            = drop_bit (nat (8 - (rb + 1))) ?yl) = agree da ?oa db ?ob M n"
        by (rule last_longer) (use longer in auto)
      show ?thesis
        unfolding equal_misaligned_def Let_def ga(1-5) gb(1-5) a(2) b(2) sh e2 split
        using many first loop last lens cov k c
        by (simp add: getitem_nth)
    qed
  qed
qed

lemma agree_sym: "agree da oa db ob lo hi = agree db ob da oa lo hi"
  by (auto simp add: agree_def)

lemma agree_refl: "agree d oa d oa lo hi"
  by (simp add: agree_def)

lemma agree_empty: "hi \<le> lo \<Longrightarrow> agree da oa db ob lo hi"
  by (auto simp add: agree_def)

lemma agree_trans:
  "agree da oa db ob lo hi \<Longrightarrow> agree db ob dc oc lo hi \<Longrightarrow> agree da oa dc oc lo hi"
  by (simp add: agree_def)

lemma equal_core_in_memory:
  assumes oa: "0 \<le> m_offset ma" and ob: "0 \<le> m_offset mb"
    and n: "m_bitlength ma = n" "m_bitlength mb = n" "0 < n"
    and le: "m_offset ma mod 8 \<le> m_offset mb mod 8"
    and cova: "m_offset ma + n \<le> 8 * int (length da)"
    and covb: "m_offset mb + n \<le> 8 * int (length db)"
  shows "(if offset (InMemory ca ma) mod 8 = offset (InMemory cb mb) mod 8
          then equal_aligned (getitem da) (getitem db) (InMemory ca ma) (InMemory cb mb)
          else equal_misaligned (getitem da) (getitem db) (InMemory ca ma) (InMemory cb mb))
         = Inr (agree da (m_offset ma) db (m_offset mb) 0 n)"
proof -
  define ka bA la ra where "ka = m_offset ma div 8" and "bA = m_offset ma mod 8"
    and "la = (m_offset ma + n - 1) div 8" and "ra = (m_offset ma + n - 1) mod 8"
  define kb bB lb rb where "kb = m_offset mb div 8" and "bB = m_offset mb mod 8"
    and "lb = (m_offset mb + n - 1) div 8" and "rb = (m_offset mb + n - 1) mod 8"
  have a: "m_offset ma = 8 * ka + bA" "0 \<le> bA" "bA < 8" "0 \<le> ka"
    "8 * ka + bA + n - 1 = 8 * la + ra" "0 \<le> ra" "ra < 8"
    using oa by (simp_all add: ka_def bA_def la_def ra_def pos_imp_zdiv_nonneg_iff)
  have b: "m_offset mb = 8 * kb + bB" "0 \<le> bB" "bB < 8" "0 \<le> kb"
    "8 * kb + bB + n - 1 = 8 * lb + rb" "0 \<le> rb" "rb < 8"
    using ob by (simp_all add: kb_def bB_def lb_def rb_def pos_imp_zdiv_nonneg_iff)
  have cov: "la < int (length da)" "lb < int (length db)"
    using a(1,5,6) b(1,5,6) cova covb by linarith+
  have off: "offset (InMemory ca ma) mod 8 = bA" "offset (InMemory cb mb) mod 8 = bB"
    by (simp_all add: offset_def bA_def bB_def)
  show ?thesis
  proof (cases "bA = bB")
    case True
    define D where "D = lb - kb - (la - ka)"
    have e: "8 * D = ra - rb" using a(5) b(5) True by (simp add: D_def)
    have "- 1 < D" "D < 1" using e a(6,7) b(6,7) by linarith+
    then have "D = 0" by linarith
    then have lb_eq: "lb = kb + (la - ka)" by (simp add: D_def)
    have "equal_aligned (getitem da) (getitem db) (InMemory ca ma) (InMemory cb mb)
           = Inr (agree da (8 * ka + bA) db (8 * kb + bA) 0 n)"
      by (rule equal_aligned_in_memory [OF a(1) n(1) b(1) [unfolded True [symmetric]] n(2) a(2,3,4) b(4) n(3) a(5,6,7) cov(1)])
         (use cov(2) lb_eq in simp)
    then show ?thesis using True off a(1) b(1) by simp
  next
    case False
    then have lt: "bA < bB" using le by (simp add: bA_def bB_def)
    have "equal_misaligned (getitem da) (getitem db) (InMemory ca ma) (InMemory cb mb)
           = Inr (agree da (8 * ka + bA) db (8 * kb + bB) 0 n)"
      by (rule equal_misaligned_in_memory [OF a(1) n(1) b(1) n(2) a(2) lt b(3) a(4) b(4) n(3) a(5,6,7) b(5,6,7) cov])
    then show ?thesis using False off a(1) b(1) by simp
  qed
qed

lemma equal_in_memory:
  assumes a: "objects h ! a = InMemory ca ma" and b: "objects h ! b = InMemory cb mb"
    and oa: "0 \<le> m_offset ma" and ob: "0 \<le> m_offset mb"
    and cova: "m_offset ma + m_bitlength ma \<le> 8 * int (length (bytearrays h ! rawarray ma))"
    and covb: "m_offset mb + m_bitlength mb \<le> 8 * int (length (bytearrays h ! rawarray mb))"
    and n: "0 \<le> m_bitlength ma"
  shows "equal h a b = Inr (m_bitlength ma = m_bitlength mb
           \<and> agree (bytearrays h ! rawarray ma) (m_offset ma)
                   (bytearrays h ! rawarray mb) (m_offset mb) 0 (m_bitlength ma))"
proof (cases "m_bitlength ma = m_bitlength mb")
  case False
  then show ?thesis using a b by (simp add: equal_def bitlength_def)
next
  case True
  show ?thesis
  proof (cases "m_bitlength ma = 0")
    case z: True
    then show ?thesis using a b True by (simp add: equal_def bitlength_def agree_empty)
  next
    case nz: False
    then have pos: "0 < m_bitlength ma" using n by simp
    let ?da = "bytearrays h ! rawarray ma" and ?db = "bytearrays h ! rawarray mb"
    show ?thesis
    proof (cases "m_offset ma mod 8 > m_offset mb mod 8")
      case swap: True
      have core: "(if offset (InMemory cb mb) mod 8 = offset (InMemory ca ma) mod 8
          then equal_aligned (getitem ?db) (getitem ?da) (InMemory cb mb) (InMemory ca ma)
          else equal_misaligned (getitem ?db) (getitem ?da) (InMemory cb mb) (InMemory ca ma))
         = Inr (agree ?db (m_offset mb) ?da (m_offset ma) 0 (m_bitlength ma))"
        by (rule equal_core_in_memory [OF ob oa True [symmetric] refl pos _ _ _])
           (use swap covb cova True in simp_all)
      have ne: "m_offset mb \<noteq> m_offset ma" using swap by auto
      show ?thesis
        using a b True nz swap core ne agree_sym [of ?da "m_offset ma" ?db "m_offset mb"]
        by (simp add: equal_def bitlength_def offset_def Let_def)
    next
      case noswap: False
      have core: "(if offset (InMemory ca ma) mod 8 = offset (InMemory cb mb) mod 8
          then equal_aligned (getitem ?da) (getitem ?db) (InMemory ca ma) (InMemory cb mb)
          else equal_misaligned (getitem ?da) (getitem ?db) (InMemory ca ma) (InMemory cb mb))
         = Inr (agree ?da (m_offset ma) ?db (m_offset mb) 0 (m_bitlength ma))"
        by (rule equal_core_in_memory [OF oa ob refl True [symmetric] pos _ _ _])
           (use noswap covb cova True in simp_all)
      show ?thesis
      proof (cases "rawarray ma = rawarray mb \<and> m_offset ma = m_offset mb")
        case same: True
        then show ?thesis
          using a b True nz noswap agree_refl [of ?da "m_offset ma" 0 "m_bitlength ma"]
          by (simp add: equal_def bitlength_def offset_def Let_def)
      next
        case diff: False
        then show ?thesis
          using a b True nz noswap core
          by (auto simp add: equal_def bitlength_def offset_def Let_def)
      qed
    qed
  qed
qed

lemma getbit_bit_at:
  assumes "objects h ! a = InMemory c m" "0 \<le> m_offset m" "0 \<le> i" "i < m_bitlength m"
    and "m_offset m + m_bitlength m \<le> 8 * int (length (bytearrays h ! rawarray m))"
  shows "getbit h a i = Inr (bit_at (bytearrays h ! rawarray m) (m_offset m + i))"
proof -
  let ?p = "m_offset m + i"
  have p: "0 \<le> ?p div 8" "?p div 8 < int (length (bytearrays h ! rawarray m))"
    using assms by (simp_all add: pos_imp_zdiv_nonneg_iff)
  have k: "nat (?p mod 8) < 8" by simp
  have "7 - nat (?p mod 8) = nat (7 - ?p mod 8)" by simp
  moreover have "nat (7 - ?p mod 8) < 8"
    using pos_mod_sign [of 8 ?p] by linarith
  ultimately show ?thesis
    using assms p
    by (simp add: getbit_def getitem_nth mask128_bit [OF k] bit_at_def bit_uint_iff)
qed

section \<open>Realignment of an in-memory buffer\<close>

lemma mapE_Inr: "(\<And>x. x \<in> set xs \<Longrightarrow> f x = Inr (g x)) \<Longrightarrow> mapE f xs = Inr (map g xs)"
  by (induction xs) auto

lemma byte_value_range:
  assumes "\<And>t. bit w t \<Longrightarrow> t < 8"
  shows "0 \<le> w \<and> w < (256::int)"
proof -
  have "take_bit 8 w = w"
    by (rule bit_eqI) (use assms in \<open>auto simp add: bit_take_bit_iff\<close>)
  then show ?thesis using take_bit_int_eq_self_iff [of 8 w] by simp
qed

lemma bytearray_Inr:
  "(\<And>v. v \<in> set vs \<Longrightarrow> 0 \<le> v \<and> v < 256) \<Longrightarrow> bytearray vs = Inr (map word_of_int vs)"
  unfolding bytearray_def by (rule mapE_Inr) (simp add: to_byte_def)

lemma shl_last_bits:
  assumes "0 \<le> k" "k < int (length d)"
  shows "bit (push_bit s (uint (d ! nat k)) AND 255) t
         = (s \<le> t \<and> t < 8 \<and> bit_at d (8 * k + 7 + int s - int t))"
proof (cases "s \<le> t")
  case True
  then have e: "8 * k + 7 - int (t - s) = 8 * k + 7 + int s - int t" by simp
  have "bit (d ! nat k) (t - s) = (t - s < 8 \<and> bit_at d (8 * k + 7 + int s - int t))"
    using byte_bits [OF assms, of "t - s"] unfolding e .
  then show ?thesis using True by (auto simp add: m255 bit_simps)
next
  case False
  then show ?thesis by (simp add: m255 bit_simps)
qed

lemma shr_first_bits:
  assumes "0 \<le> k" "k < int (length d)"
  shows "bit (drop_bit s (uint (d ! nat k))) t
         = (t + s < 8 \<and> bit_at d (8 * k + 7 - int s - int t))"
proof -
  have e: "8 * k + 7 - int (s + t) = 8 * k + 7 - int s - int t" by simp
  have "bit (d ! nat k) (s + t) = (s + t < 8 \<and> bit_at d (8 * k + 7 - int s - int t))"
    using byte_bits [OF assms, of "s + t"] unfolding e .
  then show ?thesis by (auto simp add: bit_simps add.commute)
qed

lemma shl_join_bits:
  assumes k: "0 \<le> k" "k + 1 < int (length d)" and s: "0 < s1" "s1 + s2 = 8"
  shows "bit ((push_bit s1 (uint (d ! nat k)) AND 255) + drop_bit s2 (uint (d ! nat (k + 1)))) t
         = (t < 8 \<and> bit_at d (8 * k + 7 + int s1 - int t))"
proof -
  let ?A = "push_bit s1 (uint (d ! nat k)) AND 255" and ?B = "drop_bit s2 (uint (d ! nat (k + 1)))"
  have k1: "0 \<le> k + 1" "k < int (length d)" using k by auto
  have A: "bit ?A t = (s1 \<le> t \<and> t < 8 \<and> bit_at d (8 * k + 7 + int s1 - int t))" for t
    by (rule shl_last_bits [OF k(1) k1(2)])
  have B: "bit ?B t = (t < s1 \<and> bit_at d (8 * k + 7 + int s1 - int t))" for t
  proof -
    have e: "8 * (k + 1) + 7 - int s2 - int t = 8 * k + 7 + int s1 - int t" using s by simp
    have c: "(t + s2 < 8) = (t < s1)" using s by auto
    show ?thesis using shr_first_bits [OF k1(1) k(2), of s2 t] unfolding e c .
  qed
  have "?A + ?B = ?A OR ?B"
    by (rule disjunctive_add) (auto simp add: A B)
  then show ?thesis using s by (auto simp add: bit_or_iff A B)
qed

lemma bit_at_shifted:
  assumes len: "int (length d') = N"
    and bits: "\<And>k t. 0 \<le> k \<Longrightarrow> k < N \<Longrightarrow> t < 8 \<Longrightarrow> lo \<le> 8 * k + 7 - int t \<Longrightarrow> 8 * k + 7 - int t < hi
               \<Longrightarrow> bit (d' ! nat k) t = bit_at d (8 * k + 7 - int t + delta)"
    and range: "0 \<le> lo" "hi \<le> 8 * N" and p: "lo \<le> p" "p < hi"
  shows "bit_at d' p = bit_at d (p + delta)"
proof -
  define k t where "k = p div 8" and "t = nat (7 - p mod 8)"
  have t: "int t = 7 - p mod 8" "t < 8"
    using pos_mod_sign [of 8 p] pos_mod_bound [of 8 p] by (simp_all add: t_def)
  have pe: "p = 8 * k + 7 - int t" using t(1) by (simp add: k_def)
  have k: "0 \<le> k" "k < N" using p range pe t by linarith+
  have "bit (d' ! nat k) t = bit_at d (8 * k + 7 - int t + delta)"
    by (rule bits) (use k t p pe in auto)
  then show ?thesis unfolding pe [symmetric] by (simp add: bit_at_def k_def t_def)
qed

lemma shifted_list:
  assumes ws: "\<And>k. k < length ws \<Longrightarrow> shifted_byte (ws ! k) d (int k) delta lo hi"
    and range: "0 \<le> lo" "hi \<le> 8 * int (length ws)"
  shows "bytearray ws = Inr (map word_of_int ws)"
    and "lo \<le> p \<Longrightarrow> p < hi \<Longrightarrow> bit_at (map word_of_int ws) p = bit_at d (p + delta)"
proof -
  show "bytearray ws = Inr (map word_of_int ws)"
  proof (rule bytearray_Inr)
    fix v assume "v \<in> set ws"
    then obtain k where "k < length ws" "ws ! k = v" by (auto simp add: in_set_conv_nth)
    with ws [of k] show "0 \<le> v \<and> v < 256"
      by (intro byte_value_range) (auto simp add: shifted_byte_def)
  qed
  assume p: "lo \<le> p" "p < hi"
  show "bit_at (map word_of_int ws) p = bit_at d (p + delta)"
  proof (rule bit_at_shifted [where N = "int (length ws)" and lo = lo and hi = hi])
    fix k :: int and t :: nat
    assume k: "0 \<le> k" "k < int (length ws)" and t: "t < 8"
      and r: "lo \<le> 8 * k + 7 - int t" "8 * k + 7 - int t < hi"
    have nk: "nat k < length ws" "int (nat k) = k" using k by auto
    have "shifted_byte (ws ! nat k) d k delta lo hi" using ws [OF nk(1)] nk(2) by simp
    then have "bit (ws ! nat k) t = bit_at d (8 * k + 7 - int t + delta)"
      using t r by (simp add: shifted_byte_def)
    then show "bit (map word_of_int ws ! nat k :: byte) t = bit_at d (8 * k + 7 - int t + delta)"
      using nk(1) t by (simp add: bit_word_of_int_iff)
  qed (use range p in simp_all)
qed

lemma nth_py_range: "i < nat (hi - lo) \<Longrightarrow> py_range lo hi ! i = lo + int i"
  by (simp add: py_range_def)

lemma length_py_range: "length (py_range lo hi) = nat (hi - lo)"
  by (simp add: py_range_def)

lemma bits_in_last_byte_final: "bits_in_last_byte s = final_bits s"
  by (simp add: bits_in_last_byte_def final_bits_def)

lemma offsetcopy_left_in_memory:
  assumes m: "m_offset m = off" "m_bitlength m = n" and off: "0 \<le> off" "off < 8" and n: "0 < n"
    and l: "off + n - 1 = 8 * l + r" "0 \<le> r" "r < 8" and cov: "l < int (length d)"
    and sl: "0 < sl" "int sl \<le> off"
  shows "\<exists>d'. bindE (offsetcopy_left (getitem d) (InMemory c m) sl) bytearray = Inr d'
           \<and> int (length d') = (off - int sl + n + 7) div 8
           \<and> agree d' (off - int sl) d off 0 n"
proof -
  have m0: "m_offset m = 8 * 0 + off" "8 * 0 + off + m_bitlength m - 1 = 8 * l + r" "0 < m_bitlength m"
    using m l n by simp_all
  note g = in_memory_geometry [OF m0(1) off order_refl m0(2) l(2,3) m0(3)]
  have l0: "0 \<le> l" using g(7) .
  define G where "G x = (push_bit sl (uint (d ! nat x)) AND 255)
                         + drop_bit (8 - sl) (uint (d ! nat (x + 1)))" for x
  define lastb where "lastb = push_bit sl (uint (d ! nat l)) AND 255"
  define ws where "ws = map G (py_range 0 l) @ (if r + 1 > int sl then [lastb] else [])"
  define lo hi where "lo = off - int sl" and "hi = off - int sl + n"
  have sl8: "sl < 8" "sl + (8 - sl) = 8" using sl off by auto
  have loop: "mapE (\<lambda>x. bindE (getitem d x) (\<lambda>u. bindE (getitem d (x + 1)) (\<lambda>v.
                Inr ((push_bit sl u AND 255) + drop_bit (8 - sl) v)))) (py_range 0 l)
              = Inr (map G (py_range 0 l))"
  proof (rule mapE_Inr)
    fix x assume "x \<in> set (py_range 0 l)"
    then have x: "0 \<le> x" "x < l" by (simp_all add: set_py_range)
    then have "getitem d x = Inr (uint (d ! nat x))" "getitem d (x + 1) = Inr (uint (d ! nat (x + 1)))"
      using cov by (simp_all add: getitem_nth)
    then show "bindE (getitem d x) (\<lambda>u. bindE (getitem d (x + 1)) (\<lambda>v.
                Inr ((push_bit sl u AND 255) + drop_bit (8 - sl) v))) = Inr (G x)"
      by (simp add: G_def)
  qed
  have run: "offsetcopy_left (getitem d) (InMemory c m) sl = Inr ws"
    unfolding offsetcopy_left_def bits_in_last_byte_final g(1-5)
    using loop l0 cov by (simp add: ws_def lastb_def getitem_nth)
  have len: "int (length ws) = (if r + 1 > int sl then l + 1 else l)"
    using l0 by (simp add: ws_def length_py_range)
  have len': "int (length ws) = (off - int sl + n + 7) div 8"
  proof (cases "r + 1 > int sl")
    case True
    then have "off - int sl + n + 7 = 8 * (l + 1) + (r - int sl)" "0 \<le> r - int sl" "r - int sl < 8"
      using l by simp_all
    then show ?thesis using True len divmod8 [of "r - int sl" "l + 1"] by simp
  next
    case False
    then have "off - int sl + n + 7 = 8 * l + (8 + r - int sl)" "0 \<le> 8 + r - int sl" "8 + r - int sl < 8"
      using l sl8 by simp_all
    then show ?thesis using False len divmod8 [of "8 + r - int sl" l] by simp
  qed
  have wsk: "shifted_byte (ws ! k) d (int k) (int sl) lo hi" if "k < length ws" for k
  proof (cases "int k < l")
    case True
    then have kk: "k < nat (l - 0)" by simp
    have e: "ws ! k = G (int k)"
      using kk by (simp add: ws_def nth_append length_py_range nth_py_range)
    have k1: "0 \<le> int k" "int k + 1 < int (length d)" using True cov by simp_all
    have "bit (G (int k)) t = (t < 8 \<and> bit_at d (8 * int k + 7 + int sl - int t))" for t
      unfolding G_def using shl_join_bits [OF k1 sl(1) sl8(2), of t] by simp
    then show ?thesis unfolding e shifted_byte_def by (simp add: algebra_simps)
  next
    case False
    then have kl: "int k = l" "r + 1 > int sl" using that len by (auto split: if_splits)
    have "k = nat l" using kl by simp
    then have e: "ws ! k = lastb"
      using kl(2) l0 by (simp add: ws_def nth_append length_py_range)
    have b: "bit lastb t = (sl \<le> t \<and> t < 8 \<and> bit_at d (8 * l + 7 + int sl - int t))" for t
      unfolding lastb_def by (rule shl_last_bits [OF l0 cov])
    have "sl \<le> t" if "8 * l + 7 - int t < hi" for t
      using that l(1,3) by (simp add: hi_def)
    then show ?thesis unfolding e shifted_byte_def kl(1) using b by (auto simp add: algebra_simps)
  qed
  have range: "0 \<le> lo" "hi \<le> 8 * int (length ws)"
    using sl l len by (auto simp add: lo_def hi_def)
  have sh1: "bytearray ws = Inr (map word_of_int ws)"
    by (rule shifted_list(1) [of ws d "int sl" lo hi]) (fact wsk range)+
  have sh2: "bit_at (map word_of_int ws) p = bit_at d (p + int sl)" if "lo \<le> p" "p < hi" for p
    by (rule shifted_list(2) [of ws d "int sl" lo hi]) (fact wsk range that)+
  have "agree (map word_of_int ws) (off - int sl) d off 0 n"
    unfolding agree_def
  proof (intro allI impI)
    fix i assume "0 \<le> i \<and> i < n"
    then have "lo \<le> off - int sl + i" "off - int sl + i < hi" by (simp_all add: lo_def hi_def)
    from sh2 [OF this] show "bit_at (map word_of_int ws) (off - int sl + i) = bit_at d (off + i)"
      by (simp add: algebra_simps)
  qed
  then show ?thesis using run sh1 len' by simp
qed

lemma offsetcopy_right_in_memory:
  assumes m: "m_offset m = off" "m_bitlength m = n" and off: "0 \<le> off" "off < 8" and n: "0 < n"
    and l: "off + n - 1 = 8 * l + r" "0 \<le> r" "r < 8" and cov: "l < int (length d)"
    and sr: "0 < sr" "off + int sr < 8"
  shows "\<exists>d'. bindE (offsetcopy_right (getitem d 0) (getitem d) (InMemory c m) sr) bytearray = Inr d'
           \<and> int (length d') = (off + int sr + n + 7) div 8
           \<and> agree d' (off + int sr) d off 0 n"
proof -
  have m0: "m_offset m = 8 * 0 + off" "8 * 0 + off + m_bitlength m - 1 = 8 * l + r" "0 < m_bitlength m"
    using m l n by simp_all
  note g = in_memory_geometry [OF m0(1) off order_refl m0(2) l(2,3) m0(3)]
  have l0: "0 \<le> l" using g(7) .
  have d0: "0 < int (length d)" using l0 cov by linarith
  define G where "G x = (push_bit (8 - sr) (uint (d ! nat (x - 1))) AND 255)
                         + drop_bit sr (uint (d ! nat x))" for x
  define firstb where "firstb = drop_bit sr (uint (d ! nat 0))"
  define lastb where "lastb = push_bit (8 - sr) (uint (d ! nat l)) AND 255"
  define ws where "ws = (firstb # map G (py_range 1 (l + 1)))
                        @ (if r + 1 + int sr > 8 then [lastb] else [])"
  define lo hi where "lo = off + int sr" and "hi = off + int sr + n"
  have sr8: "sr < 8" "0 < 8 - sr" "(8 - sr) + sr = 8" "int (8 - sr) = 8 - int sr" using sr off by auto
  have loop: "mapE (\<lambda>x. bindE (getitem d (x - 1)) (\<lambda>u. bindE (getitem d x) (\<lambda>v.
                Inr ((push_bit (8 - sr) u AND 255) + drop_bit sr v)))) (py_range 1 (l + 1))
              = Inr (map G (py_range 1 (l + 1)))"
  proof (rule mapE_Inr)
    fix x assume "x \<in> set (py_range 1 (l + 1))"
    then have x: "1 \<le> x" "x < l + 1" by (simp_all add: set_py_range)
    then have "getitem d (x - 1) = Inr (uint (d ! nat (x - 1)))" "getitem d x = Inr (uint (d ! nat x))"
      using cov by (simp_all add: getitem_nth)
    then show "bindE (getitem d (x - 1)) (\<lambda>u. bindE (getitem d x) (\<lambda>v.
                Inr ((push_bit (8 - sr) u AND 255) + drop_bit sr v))) = Inr (G x)"
      by (simp add: G_def)
  qed
  have g0: "getitem d 0 = Inr (uint (d ! nat 0))" using d0 by (simp add: getitem_nth)
  have run: "offsetcopy_right (getitem d 0) (getitem d) (InMemory c m) sr = Inr ws"
    unfolding offsetcopy_right_def bits_in_last_byte_final g(1-5) g0
    using loop l0 cov by (simp add: ws_def lastb_def firstb_def getitem_nth Let_def)
  have len: "int (length ws) = (if r + 1 + int sr > 8 then l + 2 else l + 1)"
    using l0 by (simp add: ws_def length_py_range)
  have len': "int (length ws) = (off + int sr + n + 7) div 8"
  proof (cases "r + 1 + int sr > 8")
    case True
    then have "off + int sr + n + 7 = 8 * (l + 2) + (r + int sr - 8)" "0 \<le> r + int sr - 8"
        "r + int sr - 8 < 8"
      using l sr off by simp_all
    then show ?thesis using True len divmod8 [of "r + int sr - 8" "l + 2"] by simp
  next
    case False
    then have "off + int sr + n + 7 = 8 * (l + 1) + (r + int sr)" "0 \<le> r + int sr" "r + int sr < 8"
      using l sr by simp_all
    then show ?thesis using False len divmod8 [of "r + int sr" "l + 1"] by simp
  qed
  have wsk: "shifted_byte (ws ! k) d (int k) (- int sr) lo hi" if "k < length ws" for k
  proof -
    have "int k < int (length ws)" using that by simp
    then have "int k < l + 2" using len by (simp split: if_splits)
    then have "k = 0 \<or> (1 \<le> k \<and> int k \<le> l) \<or> int k = l + 1" by linarith
    then consider (first) "k = 0" | (mid) "1 \<le> k" "int k \<le> l" | (last) "int k = l + 1"
      by blast
    then show ?thesis
    proof cases
      case first
      have e: "ws ! 0 = firstb" by (simp add: ws_def)
      have b: "bit firstb t = (t + sr < 8 \<and> bit_at d (8 * 0 + 7 - int sr - int t))" for t
        unfolding firstb_def by (rule shr_first_bits) (use d0 in simp_all)
      have c: "t + sr < 8" if "lo \<le> 8 * int 0 + 7 - int t" for t
        using that off by (simp add: lo_def)
      have p: "8 * 0 + 7 - int sr - int t = 8 * int 0 + 7 - int t + - int sr" for t by simp
      show ?thesis unfolding first e shifted_byte_def b p using c by auto
    next
      case mid
      then obtain j where j: "k = Suc j" "j < nat (l + 1 - 1)" by (cases k) auto
      have e: "ws ! k = G (int k)"
        using j by (simp add: ws_def nth_append length_py_range nth_py_range)
      have k1: "0 \<le> int k - 1" "int k - 1 + 1 < int (length d)" using mid cov by simp_all
      have e1: "int k - 1 + 1 = int k" by simp
      have b: "bit (G (int k)) t = (t < 8 \<and> bit_at d (8 * int k + 7 - int t + - int sr))" for t
      proof -
        have p: "8 * (int k - 1) + 7 + int (8 - sr) - int t = 8 * int k + 7 - int t + - int sr"
          using sr8 by simp
        show ?thesis
          unfolding G_def using shl_join_bits [OF k1 sr8(2,3), of t] unfolding e1 p .
      qed
      show ?thesis unfolding e shifted_byte_def b by auto
    next
      case last
      then have big: "r + 1 + int sr > 8"
        using \<open>int k < int (length ws)\<close> len by (simp split: if_splits)
      have "k = Suc (nat l)" using last l0 by simp
      then have e: "ws ! k = lastb"
        using big l0 by (simp add: ws_def nth_append length_py_range)
      have b: "bit lastb t = (8 - sr \<le> t \<and> t < 8 \<and> bit_at d (8 * (l + 1) + 7 - int t + - int sr))" for t
      proof -
        have p: "8 * l + 7 + int (8 - sr) - int t = 8 * (l + 1) + 7 - int t + - int sr"
          using sr8 by simp
        show ?thesis
          unfolding lastb_def using shl_last_bits [OF l0 cov, of "8 - sr" t] unfolding p .
      qed
      have c: "8 - sr \<le> t" if "8 * (l + 1) + 7 - int t < hi" for t
        using that l(1,3) sr8 by (simp add: hi_def)
      show ?thesis unfolding e shifted_byte_def last b using c by auto
    qed
  qed
  have range: "0 \<le> lo" "hi \<le> 8 * int (length ws)"
    using sr off l len by (auto simp add: lo_def hi_def)
  have sh1: "bytearray ws = Inr (map word_of_int ws)"
    by (rule shifted_list(1) [of ws d "- int sr" lo hi]) (fact wsk range)+
  have sh2: "bit_at (map word_of_int ws) p = bit_at d (p + - int sr)" if "lo \<le> p" "p < hi" for p
    by (rule shifted_list(2) [of ws d "- int sr" lo hi]) (fact wsk range that)+
  have "agree (map word_of_int ws) (off + int sr) d off 0 n"
    unfolding agree_def
  proof (intro allI impI)
    fix i assume "0 \<le> i \<and> i < n"
    then have "lo \<le> off + int sr + i" "off + int sr + i < hi" by (simp_all add: lo_def hi_def)
    from sh2 [OF this] show "bit_at (map word_of_int ws) (off + int sr + i) = bit_at d (off + i)"
      by (simp add: algebra_simps)
  qed
  then show ?thesis using run sh1 len' by simp
qed

lemma getslice_take_drop:
  "0 \<le> i \<Longrightarrow> i \<le> j \<Longrightarrow> j \<le> int (length d) \<Longrightarrow>
     getslice d i j = take (nat (j - i)) (drop (nat i) d)"
  by (simp add: getslice_def slice_bound_def Let_def min_def max_def nat_diff_distrib)

lemma bit_at_take:
  "0 \<le> p \<Longrightarrow> p < 8 * int k \<Longrightarrow> bit_at (take k d) p = bit_at d p"
proof -
  assume "0 \<le> p" "p < 8 * int k"
  then have "nat (p div 8) < k" by (simp add: nat_less_iff)
  then show ?thesis by (simp add: bit_at_def)
qed

lemma ByteArray_fresh_eq:
  "ByteArray_fresh h d bl off =
     (\<lparr>bytearrays = bytearrays h @ [d],
       objects = objects h @ [InMemory ByteArray
          \<lparr>rawarray = length (bytearrays h), m_offset = off, m_bitlength = bl\<rparr>]\<rparr>,
      length (objects h))"
  by (simp add: ByteArray_fresh_def new_bytearray_def ByteArray_init_def new_object_def)

lemma offsetcopy_in_memory:
  assumes s: "objects h ! s = InMemory c m" and off: "0 \<le> m_offset m" "m_offset m < 8"
    and n: "0 < m_bitlength m" and no: "0 \<le> newoffset" "newoffset < 8"
    and cov: "m_offset m + m_bitlength m \<le> 8 * int (length (bytearrays h ! rawarray m))"
  shows "\<exists>d'. offsetcopy h s newoffset = Inr (ByteArray_fresh h d' (m_bitlength m) newoffset)
           \<and> int (length d') = (newoffset + m_bitlength m + 7) div 8
           \<and> agree d' newoffset (bytearrays h ! rawarray m) (m_offset m) 0 (m_bitlength m)"
proof -
  let ?d = "bytearrays h ! rawarray m" and ?n = "m_bitlength m" and ?o = "m_offset m"
  define l r where "l = (?o + ?n - 1) div 8" and "r = (?o + ?n - 1) mod 8"
  have l: "?o + ?n - 1 = 8 * l + r" "0 \<le> r" "r < 8" by (simp_all add: l_def r_def)
  have lcov: "l < int (length ?d)" using l cov by linarith
  have m0: "m_offset m = 8 * 0 + ?o" "8 * 0 + ?o + m_bitlength m - 1 = 8 * l + r"
    using l by simp_all
  note g = in_memory_geometry [OF m0(1) off order_refl m0(2) l(2,3) n]
  have l0: "0 \<le> l" using g(7) .
  have omod: "?o mod 8 = ?o" "?o div 8 = 0" using off by simp_all
  have head: "offsetcopy h s newoffset =
      (if newoffset = ?o
       then bindE (getbyteslice h s 0 (l + 1)) (\<lambda>bs. Inr (ByteArray_fresh h bs ?n newoffset))
       else bindE (if newoffset < ?o
                   then offsetcopy_left (getitem ?d) (InMemory c m) (nat (?o - newoffset))
                   else offsetcopy_right (getbyte h s 0) (getitem ?d) (InMemory c m)
                          (nat (newoffset - ?o)))
              (\<lambda>newdata. bindE (bytearray newdata)
                 (\<lambda>bs. Inr (ByteArray_fresh h bs ?n newoffset))))"
    using s n no g(3) omod by (simp add: offsetcopy_def Let_def bitlength_def offset_def)
  consider (same) "newoffset = ?o" | (left) "newoffset < ?o" | (right) "?o < newoffset"
    by linarith
  then show ?thesis
  proof cases
    case same
    have gs: "getbyteslice h s 0 (l + 1) = Inr (take (nat (l + 1)) ?d)"
      using s omod l0 lcov getslice_take_drop [of 0 "l + 1" ?d]
      by (simp add: getbyteslice_def)
    have len: "int (length (take (nat (l + 1)) ?d)) = (newoffset + ?n + 7) div 8"
    proof -
      have "newoffset + ?n + 7 = 8 * (l + 1) + r" using l same by simp
      then have "(newoffset + ?n + 7) div 8 = l + 1" using divmod8 [of r "l + 1"] l by simp
      then show ?thesis using l0 lcov by simp
    qed
    have "agree (take (nat (l + 1)) ?d) newoffset ?d ?o 0 ?n"
      unfolding agree_def same
    proof (intro allI impI)
      fix i assume "0 \<le> i \<and> i < ?n"
      then have "0 \<le> ?o + i" "?o + i < 8 * int (nat (l + 1))" using off l l0 by simp_all
      then show "bit_at (take (nat (l + 1)) ?d) (?o + i) = bit_at ?d (?o + i)"
        by (rule bit_at_take)
    qed
    then show ?thesis using head same gs len by auto
  next
    case left
    have sl: "0 < nat (?o - newoffset)" "int (nat (?o - newoffset)) \<le> ?o" using left no by simp_all
    obtain d' where d': "bindE (offsetcopy_left (getitem ?d) (InMemory c m) (nat (?o - newoffset))) bytearray = Inr d'"
        "int (length d') = (?o - int (nat (?o - newoffset)) + ?n + 7) div 8"
        "agree d' (?o - int (nat (?o - newoffset))) ?d ?o 0 ?n"
      using offsetcopy_left_in_memory [OF refl refl off n l lcov sl, of c] by blast
    have e: "?o - int (nat (?o - newoffset)) = newoffset" using left by simp
    obtain ws where ws: "offsetcopy_left (getitem ?d) (InMemory c m) (nat (?o - newoffset)) = Inr ws"
        "bytearray ws = Inr d'"
      using d'(1) by (cases "offsetcopy_left (getitem ?d) (InMemory c m) (nat (?o - newoffset))") auto
    show ?thesis using head left ws d'(2,3) unfolding e by auto
  next
    case right
    have sr: "0 < nat (newoffset - ?o)" "?o + int (nat (newoffset - ?o)) < 8" using right no by simp_all
    have gb: "getbyte h s 0 = getitem ?d 0" using s omod by (simp add: getbyte_def)
    obtain d' where d': "bindE (offsetcopy_right (getitem ?d 0) (getitem ?d) (InMemory c m) (nat (newoffset - ?o))) bytearray = Inr d'"
        "int (length d') = (?o + int (nat (newoffset - ?o)) + ?n + 7) div 8"
        "agree d' (?o + int (nat (newoffset - ?o))) ?d ?o 0 ?n"
      using offsetcopy_right_in_memory [OF refl refl off n l lcov sr, of c] by blast
    have e: "?o + int (nat (newoffset - ?o)) = newoffset" using right by simp
    obtain ws where ws: "offsetcopy_right (getitem ?d 0) (getitem ?d) (InMemory c m) (nat (newoffset - ?o)) = Inr ws"
        "bytearray ws = Inr d'"
      using d'(1) by (cases "offsetcopy_right (getitem ?d 0) (getitem ?d) (InMemory c m) (nat (newoffset - ?o))") auto
    show ?thesis using head right ws d'(2,3) gb unfolding e by auto
  qed
qed


section \<open>Appending to an in-memory buffer\<close>

lemma join_bits:
  fixes x y :: byte
  assumes "0 < k" "k < 8"
  shows "bit ((uint x AND (255 XOR drop_bit k 255)) OR (uint y AND drop_bit k 255)) t
         = (if 8 - k \<le> t then bit x t else bit y t)"
proof -
  have d: "drop_bit k (255::int) = mask (8 - k)" using assms by (simp add: dm255)
  have x8: "bit x t \<Longrightarrow> t < 8" and y8: "bit y t \<Longrightarrow> t < 8"
    by (auto dest: bit_imp_le_length)
  show ?thesis unfolding d m255
    using x8 y8 by (auto simp add: bit_simps)
qed

lemma join_to_byte:
  fixes x y :: byte
  assumes "0 < k" "k < 8"
  shows "\<exists>w. to_byte ((uint x AND (255 XOR drop_bit k 255)) OR (uint y AND drop_bit k 255)) = Inr w
           \<and> (\<forall>t. bit w t = (if 8 - k \<le> t then bit x t else bit y t))"
proof -
  let ?v = "(uint x AND (255 XOR drop_bit k 255)) OR (uint y AND drop_bit k 255)"
  have b: "bit ?v t = (if 8 - k \<le> t then bit x t else bit y t)" for t
    by (rule join_bits [OF assms])
  have "0 \<le> ?v \<and> ?v < 256"
    by (rule byte_value_range) (auto simp add: b dest: bit_imp_le_length split: if_splits)
  then have "to_byte ?v = Inr (word_of_int ?v)" by (simp add: to_byte_def)
  moreover have "bit (word_of_int ?v :: byte) t = (if 8 - k \<le> t then bit x t else bit y t)" for t
    unfolding bit_word_of_int_iff b by (auto dest: bit_imp_le_length)
  ultimately show ?thesis by blast
qed

lemma bit_at_append_left:
  "0 \<le> p \<Longrightarrow> p < 8 * int (length xs) \<Longrightarrow> bit_at (xs @ ys) p = bit_at xs p"
proof -
  assume "0 \<le> p" "p < 8 * int (length xs)"
  then have "nat (p div 8) < length xs" by (simp add: nat_less_iff)
  then show ?thesis by (simp add: bit_at_def nth_append)
qed

lemma bit_at_append_right:
  assumes "8 * int (length xs) \<le> p"
  shows "bit_at (xs @ ys) p = bit_at ys (p - 8 * int (length xs))"
proof -
  have e: "(p - 8 * int (length xs)) div 8 = p div 8 - int (length xs)"
      "(p - 8 * int (length xs)) mod 8 = p mod 8"
    by (simp_all add: algebra_simps div_mult_self1 [of 8 p "- int (length xs)", simplified])
        (metis add.commute add_uminus_conv_diff mod_mult_self4 mult.commute mult_minus_left)
  have "int (length xs) \<le> p div 8" using assms by linarith
  then have "\<not> nat (p div 8) < length xs" "nat (p div 8) - length xs = nat (p div 8 - int (length xs))"
    by (simp_all add: nat_diff_distrib nat_less_iff)
  then show ?thesis by (simp add: bit_at_def nth_append e)
qed

lemma bit_at_single:
  "0 \<le> p \<Longrightarrow> p < 8 \<Longrightarrow> bit_at [w] p = bit w (nat (7 - p))"
  by (simp add: bit_at_def)

lemma bit_at_nth:
  assumes "0 \<le> j" "j < 8" "0 \<le> q"
  shows "bit_at d (8 * q + j) = bit (d ! nat q) (nat (7 - j))"
  using divmod8 [OF assms(1,2), of q] by (simp add: bit_at_def)

lemma joined_bytes:
  assumes k: "0 < k" "k < 8" and da: "da \<noteq> []" and d': "d' \<noteq> []"
    and w: "\<And>t. bit w t = (if 8 - nat k \<le> t then bit (last da) t else bit (d' ! 0) t)"
    and q: "q = int (length da) - 1"
  shows "0 \<le> p \<Longrightarrow> p < 8 * q + k \<Longrightarrow> bit_at (butlast da @ [w] @ drop 1 d') p = bit_at da p"
    and "8 * q + k \<le> p \<Longrightarrow> bit_at (butlast da @ [w] @ drop 1 d') p = bit_at d' (p - 8 * q)"
proof -
  have lpos: "0 < length da" using da by simp
  have "length da = Suc (length (butlast da))" using da by (cases da) auto
  then have lb: "int (length (butlast da)) = q" using q by linarith
  have q0: "0 \<le> q" using lb by linarith
  have "nat q = length da - 1" using q by linarith
  then have lastq: "last da = da ! nat q" using da by (simp add: last_conv_nth)
  {
    assume p: "0 \<le> p" "p < 8 * q + k"
    show "bit_at (butlast da @ [w] @ drop 1 d') p = bit_at da p"
    proof (cases "p < 8 * q")
      case True
      then have "bit_at (butlast da @ [w] @ drop 1 d') p = bit_at (butlast da) p"
        using p lb by (intro bit_at_append_left) simp_all
      moreover have "nat (p div 8) < length (butlast da)"
        using True p lb by (simp add: nat_less_iff)
      then have "bit_at (butlast da) p = bit_at da p"
        by (simp add: bit_at_def nth_butlast)
      ultimately show ?thesis by simp
    next
      case False
      define j where "j = p - 8 * q"
      have j: "0 \<le> j" "j < k" "j < 8" "p = 8 * q + j" using False p k by (simp_all add: j_def)
      have "bit_at (butlast da @ [w] @ drop 1 d') p = bit_at ([w] @ drop 1 d') j"
        using bit_at_append_right [of "butlast da" p "[w] @ drop 1 d'"] False lb by (simp add: j_def)
      also have "\<dots> = bit_at [w] j"
        using j by (intro bit_at_append_left) simp_all
      also have "\<dots> = bit w (nat (7 - j))" using j by (simp add: bit_at_single)
      also have "\<dots> = bit (last da) (nat (7 - j))"
      proof -
        have "8 - nat k \<le> nat (7 - j)" using j k by linarith
        then show ?thesis by (simp add: w)
      qed
      also have "\<dots> = bit_at da p"
        unfolding j(4) lastq using bit_at_nth [OF j(1,3) q0, of da] by simp
      finally show ?thesis .
    qed
  }
  {
    assume p: "8 * q + k \<le> p"
    define j where "j = p - 8 * q"
    have j: "k \<le> j" "0 \<le> j" using p k by (simp_all add: j_def)
    have "bit_at (butlast da @ [w] @ drop 1 d') p = bit_at ([w] @ drop 1 d') j"
      using bit_at_append_right [of "butlast da" p "[w] @ drop 1 d'"] p lb k by (simp add: j_def)
    also have "\<dots> = bit_at d' j"
    proof (cases "j < 8")
      case True
      have "bit_at ([w] @ drop 1 d') j = bit_at [w] j"
        using j True by (intro bit_at_append_left) simp_all
      also have "\<dots> = bit w (nat (7 - j))" using j True by (simp add: bit_at_single)
      also have "\<dots> = bit (d' ! 0) (nat (7 - j))"
      proof -
        have "\<not> 8 - nat k \<le> nat (7 - j)" using j k True by linarith
        then show ?thesis by (simp add: w)
      qed
      also have "\<dots> = bit_at d' j"
        using bit_at_nth [OF j(2) True, of 0 d'] by simp
      finally show ?thesis .
    next
      case False
      then have j8: "8 \<le> j" by simp
      have e: "(j - 8) div 8 = j div 8 - 1" "(j - 8) mod 8 = j mod 8"
        using div_mult_self1 [of 8 j "- 1"] mod_mult_self1 [of j 8 "- 1"] by simp_all
      have d1: "1 \<le> j div 8" using j8 by linarith
      have "bit_at ([w] @ drop 1 d') j = bit_at (drop 1 d') (j - 8)"
        using bit_at_append_right [of "[w]" j "drop 1 d'"] j8 by simp
      also have "\<dots> = bit (d' ! (1 + nat (j div 8 - 1))) (nat (7 - j mod 8))"
        using d' by (simp add: bit_at_def e Suc_le_eq)
      also have "1 + nat (j div 8 - 1) = nat (j div 8)" using d1 by simp
      finally show ?thesis by (simp add: bit_at_def)
    qed
    finally show "bit_at (butlast da @ [w] @ drop 1 d') p = bit_at d' (p - 8 * q)"
      by (simp add: j_def)
  }
qed

lemma set_bytes_simps:
  "bytearrays (set_bytes h r d) = (bytearrays h)[r := d]" "objects (set_bytes h r d) = objects h"
  by (simp_all add: set_bytes_def)

lemma set_object_simps:
  "objects (set_object h r a) = (objects h)[r := a]" "bytearrays (set_object h r a) = bytearrays h"
  by (simp_all add: set_object_def)

lemma ceil8_pos: "0 < x \<Longrightarrow> 0 < (x + 7) div (8::int)"
  by linarith

lemma ceil8_cover: "x \<le> 8 * ((x + 7) div (8::int))"
  by linarith

lemma appendarray_in_memory:
  assumes self: "self < length (objects h)" "objects h ! self = InMemory ByteArray m"
      "rawarray m < length (bytearrays h)"
    and arr: "objects h ! array = InMemory cb mb"
    and o: "0 \<le> m_offset m" and n: "0 \<le> m_bitlength m"
    and exact: "int (length (bytearrays h ! rawarray m)) = (m_offset m + m_bitlength m + 7) div 8"
    and ob: "0 \<le> m_offset mb" "m_offset mb < 8" and nb: "0 < m_bitlength mb"
    and covb: "m_offset mb + m_bitlength mb \<le> 8 * int (length (bytearrays h ! rawarray mb))"
  shows "\<exists>h' newc d'. appendarray h self array = Inr h'
      \<and> objects h' = (objects h @ [InMemory ByteArray \<lparr>rawarray = length (bytearrays h),
             m_offset = (m_offset m + m_bitlength m) mod 8, m_bitlength = m_bitlength mb\<rparr>])
           [self := InMemory ByteArray (m\<lparr>m_bitlength := m_bitlength m + m_bitlength mb\<rparr>)]
      \<and> bytearrays h' = (bytearrays h @ [d'])[rawarray m := newc]
      \<and> m_offset m + m_bitlength m + m_bitlength mb \<le> 8 * int (length newc)
      \<and> agree newc (m_offset m) (bytearrays h ! rawarray m) (m_offset m) 0 (m_bitlength m)
      \<and> agree newc (m_offset m + m_bitlength m) (bytearrays h ! rawarray mb) (m_offset mb) 0
            (m_bitlength mb)"
proof -
  let ?da = "bytearrays h ! rawarray m" and ?db = "bytearrays h ! rawarray mb"
  let ?o = "m_offset m" and ?n = "m_bitlength m" and ?nb = "m_bitlength mb"
  define k q where "k = (?o + ?n) mod 8" and "q = (?o + ?n) div 8"
  have k: "0 \<le> k" "k < 8" "?o + ?n = 8 * q + k" by (simp_all add: k_def q_def)
  have q0: "0 \<le> q" using o n by (simp add: q_def pos_imp_zdiv_nonneg_iff)
  obtain d' where d': "offsetcopy h array k = Inr (ByteArray_fresh h d' ?nb k)"
      "int (length d') = (k + ?nb + 7) div 8" "agree d' k ?db (m_offset mb) 0 ?nb"
    using offsetcopy_in_memory [OF arr ob nb k(1,2) covb] by blast
  have d'ne: "d' \<noteq> []" using d'(2) nb k(1) ceil8_pos [of "k + ?nb"] by auto
  define arrobj where "arrobj = InMemory ByteArray
      \<lparr>rawarray = length (bytearrays h), m_offset = k, m_bitlength = ?nb\<rparr>"
  define h1 where "h1 = \<lparr>bytearrays = bytearrays h @ [d'], objects = objects h @ [arrobj]\<rparr>"
  have fresh: "ByteArray_fresh h d' ?nb k = (h1, length (objects h))"
    by (simp add: ByteArray_fresh_eq h1_def arrobj_def)
  have h1: "objects h1 ! self = InMemory ByteArray m" "objects h1 ! length (objects h) = arrobj"
      "bytearrays h1 ! rawarray m = ?da" "bytearrays h1 ! length (bytearrays h) = d'"
    using self by (simp_all add: h1_def nth_append)
  have sl: "slots arrobj = \<lparr>rawarray = length (bytearrays h), m_offset = k, m_bitlength = ?nb\<rparr>"
    by (simp add: slots_def arrobj_def)
  define selfobj where "selfobj = InMemory ByteArray (m\<lparr>m_bitlength := ?n + ?nb\<rparr>)"
  have head: "appendarray h self array =
      bindE (if k \<noteq> 0
             then bindE (pop ?da) (\<lambda>(d1, lastbyte).
                    let h2 = set_bytes h1 (rawarray m) d1 in
                    bindE (getbyte h2 (length (objects h)) 0) (\<lambda>firstbyte.
                    bindE (to_byte ((lastbyte AND (255 XOR drop_bit (nat k) 255))
                                    OR (firstbyte AND drop_bit (nat k) 255))) (\<lambda>joinval.
                      let h3 = set_bytes h2 (rawarray m) (bytearrays h2 ! rawarray m @ [joinval]);
                          rest = getslice (bytearrays h3 ! length (bytearrays h)) 1
                                   (int (length (bytearrays h3 ! length (bytearrays h))))
                      in Inr (set_bytes h3 (rawarray m) (bytearrays h3 ! rawarray m @ rest)))))
             else Inr (set_bytes h1 (rawarray m) (?da @ d')))
        (\<lambda>h4. Inr (set_object h4 self selfobj))"
    using self(2) arr nb d'(1) fresh h1 sl
    by (simp add: appendarray_def bitlength_def k_def [symmetric] selfobj_def)
  have ne: "rawarray m \<noteq> length (bytearrays h)" using self(3) by simp
  have rlt: "rawarray m < length (bytearrays h @ [d'])" using self(3) by simp
  show ?thesis
  proof (cases "k = 0")
    case True
    define newc where "newc = ?da @ d'"
    define h' where "h' = set_object (set_bytes h1 (rawarray m) newc) self selfobj"
    have run: "appendarray h self array = Inr h'"
      using head True by (simp add: h'_def newc_def)
    have lda: "int (length ?da) = q"
    proof -
      have "?o + ?n + 7 = 8 * q + 7" using k True by simp
      then show ?thesis using exact divmod8 [of 7 q] by simp
    qed
    have len: "?o + ?n + ?nb \<le> 8 * int (length newc)"
      using lda d'(2) k True ceil8_cover [of "k + ?nb"] by (simp add: newc_def)
    have a1: "agree newc ?o ?da ?o 0 ?n"
      unfolding agree_def
    proof (intro allI impI)
      fix i assume "0 \<le> i \<and> i < ?n"
      then have "0 \<le> ?o + i" "?o + i < 8 * int (length ?da)" using o lda k True by simp_all
      then show "bit_at newc (?o + i) = bit_at ?da (?o + i)"
        unfolding newc_def by (rule bit_at_append_left)
    qed
    have a2: "agree newc (?o + ?n) ?db (m_offset mb) 0 ?nb"
      unfolding agree_def
    proof (intro allI impI)
      fix i assume i: "0 \<le> i \<and> i < ?nb"
      then have "8 * int (length ?da) \<le> ?o + ?n + i" using lda k True by simp
      then have "bit_at newc (?o + ?n + i) = bit_at d' (?o + ?n + i - 8 * int (length ?da))"
        unfolding newc_def by (rule bit_at_append_right)
      moreover have "?o + ?n + i - 8 * int (length ?da) = k + i" using lda k by simp
      ultimately show "bit_at newc (?o + ?n + i) = bit_at ?db (m_offset mb + i)"
        using d'(3) i by (simp add: agree_def)
    qed
    have "objects h' = (objects h @ [arrobj])[self := selfobj]"
      "bytearrays h' = (bytearrays h @ [d'])[rawarray m := newc]"
      by (simp_all add: h'_def h1_def set_bytes_simps set_object_simps)
    then show ?thesis
      using run len a1 a2 unfolding arrobj_def selfobj_def k_def by blast
  next
    case False
    then have kpos: "0 < nat k" "nat k < 8" "0 < k" using k by simp_all
    have lda: "int (length ?da) = q + 1"
    proof -
      have "?o + ?n + 7 = 8 * (q + 1) + (k - 1)" "0 \<le> k - 1" "k - 1 < 8" using k kpos by simp_all
      then show ?thesis using exact divmod8 [of "k - 1" "q + 1"] by simp
    qed
    then have dane: "?da \<noteq> []" using q0 by auto
    obtain w where w: "to_byte ((uint (last ?da) AND (255 XOR drop_bit (nat k) 255))
                          OR (uint (d' ! 0) AND drop_bit (nat k) 255)) = Inr w"
        "\<And>t. bit w t = (if 8 - nat k \<le> t then bit (last ?da) t else bit (d' ! 0) t)"
      using join_to_byte [OF kpos(1,2), of "last ?da" "d' ! 0"] by blast
    define newc where "newc = butlast ?da @ [w] @ drop 1 d'"
    define h' where "h' = set_object (set_bytes h1 (rawarray m) newc) self selfobj"
    have gb: "getbyte (set_bytes h1 (rawarray m) (butlast ?da)) (length (objects h)) 0
               = Inr (uint (d' ! 0))"
      using d'ne ne k by (simp add: getbyte_def set_bytes_simps h1_def arrobj_def getitem_def)
    have rest: "getslice d' 1 (int (length d')) = drop 1 d'"
      using d'ne getslice_take_drop [of 1 "int (length d')" d']
      by (cases d') (simp_all add: nat_diff_distrib)
    have run: "appendarray h self array = Inr h'"
      using head False dane gb w(1) rest ne rlt
      by (simp add: pop_def Let_def set_bytes_simps h1_def h'_def newc_def set_bytes_def)
    have qe: "q = int (length ?da) - 1" using lda by simp
    note jb = joined_bytes [OF kpos(3) k(2) dane d'ne w(2) qe]
    have len: "?o + ?n + ?nb \<le> 8 * int (length newc)"
    proof -
      have "length newc = (length ?da - 1) + 1 + (length d' - 1)" by (simp add: newc_def)
      moreover have "0 < length ?da" "0 < length d'" using dane d'ne by simp_all
      ultimately have "int (length newc) = q + int (length d')" using lda by linarith
      then show ?thesis using d'(2) k ceil8_cover [of "k + ?nb"] by simp
    qed
    have a1: "agree newc ?o ?da ?o 0 ?n"
      unfolding agree_def newc_def
    proof (intro allI impI)
      fix i assume "0 \<le> i \<and> i < ?n"
      then have "0 \<le> ?o + i" "?o + i < 8 * q + k" using o k by simp_all
      then show "bit_at (butlast ?da @ [w] @ drop 1 d') (?o + i) = bit_at ?da (?o + i)"
        by (rule jb(1))
    qed
    have a2: "agree newc (?o + ?n) ?db (m_offset mb) 0 ?nb"
      unfolding agree_def newc_def
    proof (intro allI impI)
      fix i assume i: "0 \<le> i \<and> i < ?nb"
      then have "8 * q + k \<le> ?o + ?n + i" using k by simp
      then have "bit_at (butlast ?da @ [w] @ drop 1 d') (?o + ?n + i) = bit_at d' (?o + ?n + i - 8 * q)"
        by (rule jb(2))
      moreover have "?o + ?n + i - 8 * q = k + i" using k by simp
      ultimately show "bit_at (butlast ?da @ [w] @ drop 1 d') (?o + ?n + i) = bit_at ?db (m_offset mb + i)"
        using d'(3) i by (simp add: agree_def)
    qed
    have "objects h' = (objects h @ [arrobj])[self := selfobj]"
      "bytearrays h' = (bytearrays h @ [d'])[rawarray m := newc]"
      by (simp_all add: h'_def h1_def set_bytes_simps set_object_simps)
    then show ?thesis
      using run len a1 a2 unfolding arrobj_def selfobj_def k_def by blast
  qed
qed

lemma copy_in_memory:
  "objects h ! a = InMemory c m \<Longrightarrow>
     copy h a = Inr (ByteArray_fresh h (bytearrays h ! rawarray m) (m_bitlength m) (m_offset m))"
  by (simp add: copy_def)

lemma slice_array_in_memory:
  "objects h ! x = InMemory c m \<Longrightarrow>
     slice_array h x bl off =
       Inr (h\<lparr>objects := objects h @ [InMemory ByteArray
                \<lparr>rawarray = rawarray m, m_offset = m_offset m + off, m_bitlength = bl\<rparr>]\<rparr>,
            length (objects h))"
  by (simp add: slice_array_def ByteArray_init_def new_object_def)

lemma appendarray_after_copy:
  assumes a: "a < length (objects h)" "objects h ! a = InMemory ca ma"
      "rawarray ma < length (bytearrays h)"
    and b: "b < length (objects h)" "objects h ! b = InMemory cb mb"
      "rawarray mb < length (bytearrays h)"
    and oa: "0 \<le> m_offset ma" and na: "0 \<le> m_bitlength ma"
    and ob: "0 \<le> m_offset mb" "m_offset mb < 8" and nb: "0 \<le> m_bitlength mb"
    and exact: "int (length (bytearrays h ! rawarray ma))
                  = (m_offset ma + m_bitlength ma + 7) div 8"
    and covb: "m_offset mb + m_bitlength mb \<le> 8 * int (length (bytearrays h ! rawarray mb))"
  shows "\<exists>h1 h2 newc. copy h a = Inr (h1, length (objects h))
      \<and> appendarray h1 (length (objects h)) b = Inr h2
      \<and> length (objects h) < length (objects h2)
      \<and> objects h2 ! length (objects h) = InMemory ByteArray
           \<lparr>rawarray = length (bytearrays h), m_offset = m_offset ma,
            m_bitlength = m_bitlength ma + m_bitlength mb\<rparr>
      \<and> objects h2 ! a = InMemory ca ma \<and> objects h2 ! b = InMemory cb mb
      \<and> bytearrays h2 ! length (bytearrays h) = newc
      \<and> bytearrays h2 ! rawarray ma = bytearrays h ! rawarray ma
      \<and> bytearrays h2 ! rawarray mb = bytearrays h ! rawarray mb
      \<and> m_offset ma + m_bitlength ma + m_bitlength mb \<le> 8 * int (length newc)
      \<and> agree newc (m_offset ma) (bytearrays h ! rawarray ma) (m_offset ma) 0 (m_bitlength ma)
      \<and> agree newc (m_offset ma + m_bitlength ma) (bytearrays h ! rawarray mb) (m_offset mb) 0
            (m_bitlength mb)"
proof -
  let ?da = "bytearrays h ! rawarray ma" and ?db = "bytearrays h ! rawarray mb"
  let ?c = "length (objects h)" and ?rc = "length (bytearrays h)"
  define mc where "mc = \<lparr>rawarray = ?rc, m_offset = m_offset ma, m_bitlength = m_bitlength ma\<rparr>"
  define h1 where "h1 = \<lparr>bytearrays = bytearrays h @ [?da], objects = objects h @ [InMemory ByteArray mc]\<rparr>"
  have cp: "copy h a = Inr (h1, ?c)"
    using a(2) by (simp add: copy_in_memory ByteArray_fresh_eq h1_def mc_def)
  have h1: "?c < length (objects h1)" "objects h1 ! ?c = InMemory ByteArray mc"
      "rawarray mc < length (bytearrays h1)" "objects h1 ! b = InMemory cb mb"
      "objects h1 ! a = InMemory ca ma"
      "bytearrays h1 ! rawarray mc = ?da" "bytearrays h1 ! rawarray mb = ?db"
      "bytearrays h1 ! rawarray ma = ?da"
    using a b by (simp_all add: h1_def mc_def nth_append)
  have mc: "m_offset mc = m_offset ma" "m_bitlength mc = m_bitlength ma" "rawarray mc = ?rc"
    by (simp_all add: mc_def)
  show ?thesis
  proof (cases "m_bitlength mb = 0")
    case True
    have "appendarray h1 ?c b = Inr h1"
      using h1(2,4) True by (simp add: appendarray_def bitlength_def)
    moreover have "m_offset ma + m_bitlength ma + m_bitlength mb \<le> 8 * int (length ?da)"
      using exact True ceil8_cover [of "m_offset ma + m_bitlength ma"] by simp
    moreover have "agree ?da (m_offset ma + m_bitlength ma) ?db (m_offset mb) 0 (m_bitlength mb)"
      using True by (simp add: agree_empty)
    ultimately show ?thesis
      using cp h1 True mc agree_refl [of ?da "m_offset ma" 0 "m_bitlength ma"]
      by (intro exI [of _ h1] exI [of _ ?da]) (simp add: mc_def)
  next
    case False
    then have nbpos: "0 < m_bitlength mb" using nb by simp
    have p: "0 \<le> m_offset mc" "0 \<le> m_bitlength mc"
        "int (length (bytearrays h1 ! rawarray mc)) = (m_offset mc + m_bitlength mc + 7) div 8"
        "m_offset mb + m_bitlength mb \<le> 8 * int (length (bytearrays h1 ! rawarray mb))"
      using oa na exact covb h1(6,7) mc by simp_all
    obtain h2 newc d' where r: "appendarray h1 ?c b = Inr h2"
        "objects h2 = (objects h1 @ [InMemory ByteArray \<lparr>rawarray = length (bytearrays h1),
             m_offset = (m_offset mc + m_bitlength mc) mod 8, m_bitlength = m_bitlength mb\<rparr>])
           [?c := InMemory ByteArray (mc\<lparr>m_bitlength := m_bitlength mc + m_bitlength mb\<rparr>)]"
        "bytearrays h2 = (bytearrays h1 @ [d'])[rawarray mc := newc]"
        "m_offset mc + m_bitlength mc + m_bitlength mb \<le> 8 * int (length newc)"
        "agree newc (m_offset mc) (bytearrays h1 ! rawarray mc) (m_offset mc) 0 (m_bitlength mc)"
        "agree newc (m_offset mc + m_bitlength mc) (bytearrays h1 ! rawarray mb) (m_offset mb) 0
            (m_bitlength mb)"
      using appendarray_in_memory [OF h1(1,2,3,4) p(1,2,3) ob nbpos p(4)] by blast
    have o2: "objects h2 ! ?c = InMemory ByteArray
           \<lparr>rawarray = ?rc, m_offset = m_offset ma, m_bitlength = m_bitlength ma + m_bitlength mb\<rparr>"
        "objects h2 ! a = InMemory ca ma" "objects h2 ! b = InMemory cb mb"
        "?c < length (objects h2)"
      using a b unfolding r(2) by (simp_all add: h1_def mc_def nth_append)
    have b2: "bytearrays h2 ! ?rc = newc" "bytearrays h2 ! rawarray ma = ?da"
        "bytearrays h2 ! rawarray mb = ?db"
      using a b unfolding r(3) by (simp_all add: h1_def mc_def nth_append)
    show ?thesis
      using cp r(1,4,5,6) o2 b2 h1(6,7) mc by auto
  qed
qed


section \<open>Prepending to an in-memory buffer\<close>

lemma bytelength_in_first_byte:
  assumes "0 \<le> m_offset m" "m_offset m < 8" "0 \<le> m_bitlength m"
  shows "bytelength (InMemory c m)
     = (if m_bitlength m = 0 then 0 else (m_offset m + m_bitlength m - 1) div 8 + 1)"
proof (cases "m_bitlength m = 0")
  case True
  then show ?thesis by (simp add: bytelength_def)
next
  case False
  have "m_offset m div 8 = 0" using assms by simp
  moreover have "0 \<le> (m_offset m + m_bitlength m - 1) div 8"
    using assms False by (simp add: pos_imp_zdiv_nonneg_iff)
  then have "(m_offset m + m_bitlength m - 1) div 8 \<noteq> - 1" by linarith
  ultimately show ?thesis using False by (simp add: bytelength_def Let_def)
qed

lemma getitem_last: "d \<noteq> [] \<Longrightarrow> getitem d (- 1) = Inr (uint (last d))"
  by (cases d rule: rev_cases) (simp_all add: getitem_def Let_def)

lemma setitem_last:
  "d \<noteq> [] \<Longrightarrow> to_byte v = Inr w \<Longrightarrow> setitem d (- 1) v = Inr (butlast d @ [w])"
  by (cases d rule: rev_cases) (simp_all add: setitem_def Let_def)

lemma take_head_rest:
  assumes "d \<noteq> []" "1 \<le> b" "b \<le> int (length d)"
  shows "(d ! 0) # getslice d 1 b = take (nat b) d"
proof -
  obtain x xs where d: "d = x # xs" using assms(1) by (cases d) auto
  have "getslice d 1 b = take (nat (b - 1)) (drop 1 d)"
    using getslice_take_drop [of 1 b d] assms by simp
  moreover have "nat b = Suc (nat (b - 1))" using assms(2) by simp
  ultimately show ?thesis by (simp add: d)
qed

lemma prependarray_in_memory:
  assumes self: "self < length (objects h)" "objects h ! self = InMemory ByteArray m"
      "rawarray m < length (bytearrays h)"
    and arr: "objects h ! array = InMemory cb mb"
    and o: "0 \<le> m_offset m" "m_offset m < 8" and n: "0 \<le> m_bitlength m"
    and cov: "m_offset m + m_bitlength m \<le> 8 * int (length (bytearrays h ! rawarray m))"
    and dane: "bytearrays h ! rawarray m \<noteq> []"
    and ob: "0 \<le> m_offset mb" "m_offset mb < 8" and nb: "0 < m_bitlength mb"
    and covb: "m_offset mb + m_bitlength mb \<le> 8 * int (length (bytearrays h ! rawarray mb))"
  shows "\<exists>h' newc. prependarray h self array = Inr h'
      \<and> objects h' = (objects h @ [InMemory ByteArray \<lparr>rawarray = length (bytearrays h),
             m_offset = (m_offset m - m_bitlength mb) mod 8, m_bitlength = m_bitlength mb\<rparr>])
           [self := InMemory ByteArray \<lparr>rawarray = length (bytearrays h),
             m_offset = (m_offset m - m_bitlength mb) mod 8,
             m_bitlength = m_bitlength m + m_bitlength mb\<rparr>]
      \<and> bytearrays h' = bytearrays h @ [newc]
      \<and> (m_offset m - m_bitlength mb) mod 8 + m_bitlength mb + m_bitlength m
           \<le> 8 * int (length newc)
      \<and> agree newc ((m_offset m - m_bitlength mb) mod 8)
           (bytearrays h ! rawarray mb) (m_offset mb) 0 (m_bitlength mb)
      \<and> agree newc ((m_offset m - m_bitlength mb) mod 8 + m_bitlength mb)
           (bytearrays h ! rawarray m) (m_offset m) 0 (m_bitlength m)"
proof -
  let ?da = "bytearrays h ! rawarray m" and ?db = "bytearrays h ! rawarray mb"
  let ?o = "m_offset m" and ?n = "m_bitlength m" and ?nb = "m_bitlength mb"
  define k q where "k = (?o - ?nb) mod 8" and "q = (k + ?nb) div 8"
  have k: "0 \<le> k" "k < 8" by (simp_all add: k_def)
  have "(k + ?nb) mod 8 = ?o mod 8" by (simp add: k_def mod_add_left_eq)
  then have ko: "(k + ?nb) mod 8 = ?o" using o by simp
  have kq: "k + ?nb = 8 * q + ?o" using ko mult_div_mod_eq [of 8 "k + ?nb"] by (simp add: q_def)
  have q0: "0 \<le> q" using k nb by (simp add: q_def pos_imp_zdiv_nonneg_iff)
  obtain d' where d': "offsetcopy h array k = Inr (ByteArray_fresh h d' ?nb k)"
      "int (length d') = (k + ?nb + 7) div 8" "agree d' k ?db (m_offset mb) 0 ?nb"
    using offsetcopy_in_memory [OF arr ob nb k covb] by blast
  have d'ne: "d' \<noteq> []" using d'(2) nb k(1) ceil8_pos [of "k + ?nb"] by auto
  define am where "am = \<lparr>rawarray = length (bytearrays h), m_offset = k, m_bitlength = ?nb\<rparr>"
  define h1 where "h1 = \<lparr>bytearrays = bytearrays h @ [d'],
      objects = objects h @ [InMemory ByteArray am]\<rparr>"
  have fresh: "ByteArray_fresh h d' ?nb k = (h1, length (objects h))"
    by (simp add: ByteArray_fresh_eq h1_def am_def)
  have h1: "objects h1 ! self = InMemory ByteArray m"
      "objects h1 ! length (objects h) = InMemory ByteArray am"
      "bytearrays h1 ! rawarray m = ?da" "bytearrays h1 ! length (bytearrays h) = d'"
    using self by (simp_all add: h1_def nth_append)
  have sl: "slots (InMemory ByteArray am) = am" by (simp add: slots_def)
  have am: "rawarray am = length (bytearrays h)" "m_offset am = k" "m_bitlength am = ?nb"
    by (simp_all add: am_def)
  define bl where "bl = bytelength (InMemory ByteArray m)"
  have bl: "bl = (if ?n = 0 then 0 else (?o + ?n - 1) div 8 + 1)"
    unfolding bl_def by (rule bytelength_in_first_byte [OF o n])
  define selfobj where "selfobj = InMemory ByteArray
      \<lparr>rawarray = length (bytearrays h), m_offset = k, m_bitlength = ?n + ?nb\<rparr>"
  have ne: "rawarray m \<noteq> length (bytearrays h)" using self(3) by simp
  have head: "prependarray h self array =
      bindE (if ?o \<noteq> 0
             then bindE (getbyte h1 (length (objects h)) (- 1)) (\<lambda>lastbyte.
                  bindE (getitem ?da 0) (\<lambda>firstbyte.
                  bindE (setbyte h1 (length (objects h)) (- 1)
                           ((lastbyte AND (255 XOR drop_bit (nat ?o) 255))
                            OR (firstbyte AND drop_bit (nat ?o) 255)))
                    (\<lambda>h2. Inr (set_bytes h2 (length (bytearrays h))
                             (bytearrays h2 ! length (bytearrays h)
                              @ getslice (bytearrays h2 ! rawarray m) 1
                                  (bytelength (objects h2 ! self)))))))
             else Inr (set_bytes h1 (length (bytearrays h)) (d' @ getslice ?da 0 bl)))
        (\<lambda>h3. Inr (set_object h3 self selfobj))"
    using self(2) arr nb d'(1) fresh h1 sl am ko
    by (simp add: prependarray_def bitlength_def k_def [symmetric] selfobj_def bl_def)
  have blle: "bl \<le> int (length ?da)" "0 \<le> bl"
    using cov n o by (auto simp add: bl)
  have blcov: "?o + ?n \<le> 8 * bl" if "?n \<noteq> 0"
    using that by (simp add: bl)
  show ?thesis
  proof (cases "?o = 0")
    case True
    define newc where "newc = d' @ getslice ?da 0 bl"
    define h' where "h' = set_object (set_bytes h1 (length (bytearrays h)) newc) self selfobj"
    have run: "prependarray h self array = Inr h'"
      using head True by (simp add: h'_def newc_def)
    have ld: "int (length d') = q"
    proof -
      have "k + ?nb + 7 = 8 * q + 7" using kq True by simp
      then show ?thesis using d'(2) divmod8 [of 7 q] by simp
    qed
    have gs: "getslice ?da 0 bl = take (nat bl) ?da"
      using getslice_take_drop [of 0 bl ?da] blle by simp
    have len: "k + ?nb + ?n \<le> 8 * int (length newc)"
    proof (cases "?n = 0")
      case True
      then show ?thesis using ld kq \<open>?o = 0\<close> by (simp add: newc_def)
    next
      case False
      have "int (length (take (nat bl) ?da)) = bl" using blle by simp
      then have "int (length newc) = q + bl" by (simp add: newc_def gs ld)
      then show ?thesis using blcov [OF False] kq by simp
    qed
    have a1: "agree newc k ?db (m_offset mb) 0 ?nb"
      unfolding agree_def
    proof (intro allI impI)
      fix i assume i: "0 \<le> i \<and> i < ?nb"
      then have "0 \<le> k + i" "k + i < 8 * int (length d')" using k ld kq True by simp_all
      then have "bit_at newc (k + i) = bit_at d' (k + i)"
        unfolding newc_def by (rule bit_at_append_left)
      then show "bit_at newc (k + i) = bit_at ?db (m_offset mb + i)"
        using d'(3) i by (simp add: agree_def)
    qed
    have a2: "agree newc (k + ?nb) ?da ?o 0 ?n"
      unfolding agree_def
    proof (intro allI impI)
      fix i assume i: "0 \<le> i \<and> i < ?n"
      then have n0: "?n \<noteq> 0" by auto
      have "8 * int (length d') \<le> k + ?nb + i" using ld kq True i by simp
      then have "bit_at newc (k + ?nb + i) = bit_at (take (nat bl) ?da) (k + ?nb + i - 8 * int (length d'))"
        unfolding newc_def gs by (rule bit_at_append_right)
      moreover have "k + ?nb + i - 8 * int (length d') = ?o + i" using ld kq by simp
      moreover have "bit_at (take (nat bl) ?da) (?o + i) = bit_at ?da (?o + i)"
        using blcov [OF n0] i o blle by (intro bit_at_take) simp_all
      ultimately show "bit_at newc (k + ?nb + i) = bit_at ?da (?o + i)" by simp
    qed
    have "objects h' = (objects h @ [InMemory ByteArray am])[self := selfobj]"
      "bytearrays h' = bytearrays h @ [newc]"
      by (simp_all add: h'_def h1_def set_bytes_simps set_object_simps)
    then show ?thesis
      using run len a1 a2 unfolding am_def selfobj_def k_def
      by (intro exI [of _ h'] exI [of _ newc]) (simp add: add.commute)
  next
    case False
    then have opos: "0 < nat ?o" "nat ?o < 8" "0 < ?o" using o by simp_all
    have ld: "int (length d') = q + 1"
    proof -
      have "k + ?nb + 7 = 8 * (q + 1) + (?o - 1)" "0 \<le> ?o - 1" "?o - 1 < 8"
        using kq opos o by simp_all
      then show ?thesis using d'(2) divmod8 [of "?o - 1" "q + 1"] by simp
    qed
    obtain w where w: "to_byte ((uint (last d') AND (255 XOR drop_bit (nat ?o) 255))
                          OR (uint (?da ! 0) AND drop_bit (nat ?o) 255)) = Inr w"
        "\<And>t. bit w t = (if 8 - nat ?o \<le> t then bit (last d') t else bit (?da ! 0) t)"
      using join_to_byte [OF opos(1,2), of "last d'" "?da ! 0"] by blast
    define rest where "rest = getslice ?da 1 bl"
    define newc where "newc = butlast d' @ [w] @ rest"
    define h' where "h' = set_object (set_bytes h1 (length (bytearrays h)) newc) self selfobj"
    have gb: "getbyte h1 (length (objects h)) (- 1) = Inr (uint (last d'))"
      using d'ne k by (simp add: getbyte_def h1 am getitem_last)
    have gi: "getitem ?da 0 = Inr (uint (?da ! 0))"
      using dane by (simp add: getitem_nth)
    have sb: "setbyte h1 (length (objects h)) (- 1)
                 ((uint (last d') AND (255 XOR drop_bit (nat ?o) 255))
                  OR (uint (?da ! 0) AND drop_bit (nat ?o) 255))
              = Inr (set_bytes h1 (length (bytearrays h)) (butlast d' @ [w]))"
      using d'ne k w(1) by (simp add: setbyte_def h1 am setitem_last)
    have run: "prependarray h self array = Inr h'"
      using head False gb gi sb ne self
      by (simp add: Let_def set_bytes_simps h1_def h'_def newc_def rest_def set_bytes_def
          bl_def nth_append)
    have qe: "q = int (length d') - 1" using ld by simp
    have w': "\<And>t. bit w t = (if 8 - nat ?o \<le> t then bit (last d') t
                 else bit (((?da ! 0) # rest) ! 0) t)"
      using w(2) by simp
    have jb: "\<And>p. 0 \<le> p \<Longrightarrow> p < 8 * q + ?o \<Longrightarrow> bit_at newc p = bit_at d' p"
      "\<And>p. 8 * q + ?o \<le> p \<Longrightarrow> bit_at newc p = bit_at ((?da ! 0) # rest) (p - 8 * q)"
      using joined_bytes [OF opos(3) o(2) d'ne _ w' qe]
      by (simp_all add: newc_def)
    have len: "k + ?nb + ?n \<le> 8 * int (length newc)"
    proof (cases "?n = 0")
      case True
      have "length newc = (length d' - 1) + 1 + length rest" by (simp add: newc_def)
      moreover have "0 < length d'" using d'ne by simp
      ultimately have "int (length newc) = int (length d') + int (length rest)" by linarith
      then show ?thesis using ld kq o True by simp
    next
      case False
      then have b1: "1 \<le> bl" using o n by (simp add: bl pos_imp_zdiv_nonneg_iff)
      have "(?da ! 0) # rest = take (nat bl) ?da"
        unfolding rest_def by (rule take_head_rest [OF dane b1 blle(1)])
      then have "int (length ((?da ! 0) # rest)) = bl" using blle by simp
      then have "int (length rest) = bl - 1" by simp
      moreover have "length newc = (length d' - 1) + 1 + length rest" by (simp add: newc_def)
      moreover have "0 < length d'" using d'ne by simp
      ultimately have "int (length newc) = q + bl" using ld by linarith
      then show ?thesis using kq blcov [OF False] by simp
    qed
    have a1: "agree newc k ?db (m_offset mb) 0 ?nb"
      unfolding agree_def
    proof (intro allI impI)
      fix i assume i: "0 \<le> i \<and> i < ?nb"
      then have "0 \<le> k + i" "k + i < 8 * q + ?o" using k kq by simp_all
      then have "bit_at newc (k + i) = bit_at d' (k + i)" by (rule jb(1))
      then show "bit_at newc (k + i) = bit_at ?db (m_offset mb + i)"
        using d'(3) i by (simp add: agree_def)
    qed
    have a2: "agree newc (k + ?nb) ?da ?o 0 ?n"
      unfolding agree_def
    proof (intro allI impI)
      fix i assume i: "0 \<le> i \<and> i < ?n"
      then have n0: "?n \<noteq> 0" by auto
      then have b1: "1 \<le> bl" using o n by (simp add: bl pos_imp_zdiv_nonneg_iff)
      have tk: "(?da ! 0) # rest = take (nat bl) ?da"
        unfolding rest_def by (rule take_head_rest [OF dane b1 blle(1)])
      have "8 * q + ?o \<le> k + ?nb + i" using kq i by simp
      then have "bit_at newc (k + ?nb + i) = bit_at ((?da ! 0) # rest) (k + ?nb + i - 8 * q)"
        by (rule jb(2))
      moreover have "k + ?nb + i - 8 * q = ?o + i" using kq by simp
      moreover have "bit_at (take (nat bl) ?da) (?o + i) = bit_at ?da (?o + i)"
        using blcov [OF n0] i o blle by (intro bit_at_take) simp_all
      ultimately show "bit_at newc (k + ?nb + i) = bit_at ?da (?o + i)" by (simp add: tk)
    qed
    have "objects h' = (objects h @ [InMemory ByteArray am])[self := selfobj]"
      "bytearrays h' = bytearrays h @ [newc]"
      by (simp_all add: h'_def h1_def set_bytes_simps set_object_simps)
    then show ?thesis
      using run len a1 a2 unfolding am_def selfobj_def k_def
      by (intro exI [of _ h'] exI [of _ newc]) (simp add: add.commute)
  qed
qed

lemma prependarray_after_copy:
  assumes a: "a < length (objects h)" "objects h ! a = InMemory ca ma"
      "rawarray ma < length (bytearrays h)"
    and b: "b < length (objects h)" "objects h ! b = InMemory cb mb"
      "rawarray mb < length (bytearrays h)"
    and oa: "0 \<le> m_offset ma" "m_offset ma < 8" and na: "0 \<le> m_bitlength ma"
    and ob: "0 \<le> m_offset mb" "m_offset mb < 8" and nb: "0 \<le> m_bitlength mb"
    and cova: "m_offset ma + m_bitlength ma \<le> 8 * int (length (bytearrays h ! rawarray ma))"
    and covb: "m_offset mb + m_bitlength mb \<le> 8 * int (length (bytearrays h ! rawarray mb))"
    and dbne: "bytearrays h ! rawarray mb \<noteq> []"
  shows "\<exists>h1 h2 newc k rc. copy h b = Inr (h1, length (objects h))
      \<and> prependarray h1 (length (objects h)) a = Inr h2
      \<and> length (objects h) < length (objects h2)
      \<and> objects h2 ! length (objects h) = InMemory ByteArray
           \<lparr>rawarray = rc, m_offset = k, m_bitlength = m_bitlength ma + m_bitlength mb\<rparr>
      \<and> 0 \<le> k \<and> k < 8
      \<and> objects h2 ! a = InMemory ca ma \<and> objects h2 ! b = InMemory cb mb
      \<and> bytearrays h2 ! rc = newc
      \<and> bytearrays h2 ! rawarray ma = bytearrays h ! rawarray ma
      \<and> bytearrays h2 ! rawarray mb = bytearrays h ! rawarray mb
      \<and> k + m_bitlength ma + m_bitlength mb \<le> 8 * int (length newc)
      \<and> agree newc k (bytearrays h ! rawarray ma) (m_offset ma) 0 (m_bitlength ma)
      \<and> agree newc (k + m_bitlength ma) (bytearrays h ! rawarray mb) (m_offset mb) 0
            (m_bitlength mb)"
proof -
  let ?da = "bytearrays h ! rawarray ma" and ?db = "bytearrays h ! rawarray mb"
  let ?c = "length (objects h)" and ?rc = "length (bytearrays h)"
  define mc where "mc = \<lparr>rawarray = ?rc, m_offset = m_offset mb, m_bitlength = m_bitlength mb\<rparr>"
  define h1 where "h1 = \<lparr>bytearrays = bytearrays h @ [?db], objects = objects h @ [InMemory ByteArray mc]\<rparr>"
  have cp: "copy h b = Inr (h1, ?c)"
    using b(2) by (simp add: copy_in_memory ByteArray_fresh_eq h1_def mc_def)
  have h1: "?c < length (objects h1)" "objects h1 ! ?c = InMemory ByteArray mc"
      "rawarray mc < length (bytearrays h1)" "objects h1 ! a = InMemory ca ma"
      "objects h1 ! b = InMemory cb mb"
      "bytearrays h1 ! rawarray mc = ?db" "bytearrays h1 ! rawarray ma = ?da"
      "bytearrays h1 ! rawarray mb = ?db"
    using a b by (simp_all add: h1_def mc_def nth_append)
  have mc: "m_offset mc = m_offset mb" "m_bitlength mc = m_bitlength mb" "rawarray mc = ?rc"
    by (simp_all add: mc_def)
  show ?thesis
  proof (cases "m_bitlength ma = 0")
    case True
    have "prependarray h1 ?c a = Inr h1"
      using h1(2,4) True by (simp add: prependarray_def bitlength_def)
    moreover have "agree ?db (m_offset mb) ?da (m_offset ma) 0 (m_bitlength ma)"
      using True by (simp add: agree_empty)
    moreover have "objects h1 ! ?c = InMemory ByteArray
           \<lparr>rawarray = ?rc, m_offset = m_offset mb, m_bitlength = m_bitlength ma + m_bitlength mb\<rparr>"
      using h1(2) True by (simp add: mc_def)
    ultimately show ?thesis
      using cp h1 True mc ob covb agree_refl [of ?db "m_offset mb" 0 "m_bitlength mb"]
      by (intro exI [of _ h1] exI [of _ ?db] exI [of _ "m_offset mb"] exI [of _ ?rc]) simp
  next
    case False
    then have napos: "0 < m_bitlength ma" using na by simp
    define k where "k = (m_offset mc - m_bitlength ma) mod 8"
    have k: "0 \<le> k" "k < 8" by (simp_all add: k_def)
    have p: "0 \<le> m_offset mc" "m_offset mc < 8" "0 \<le> m_bitlength mc"
        "m_offset mc + m_bitlength mc \<le> 8 * int (length (bytearrays h1 ! rawarray mc))"
        "bytearrays h1 ! rawarray mc \<noteq> []"
        "m_offset ma + m_bitlength ma \<le> 8 * int (length (bytearrays h1 ! rawarray ma))"
      using ob nb covb cova dbne h1(6,7) mc by simp_all
    obtain h2 newc where r: "prependarray h1 ?c a = Inr h2"
        "objects h2 = (objects h1 @ [InMemory ByteArray \<lparr>rawarray = length (bytearrays h1),
             m_offset = k, m_bitlength = m_bitlength ma\<rparr>])
           [?c := InMemory ByteArray \<lparr>rawarray = length (bytearrays h1),
             m_offset = k, m_bitlength = m_bitlength mc + m_bitlength ma\<rparr>]"
        "bytearrays h2 = bytearrays h1 @ [newc]"
        "k + m_bitlength ma + m_bitlength mc \<le> 8 * int (length newc)"
        "agree newc k (bytearrays h1 ! rawarray ma) (m_offset ma) 0 (m_bitlength ma)"
        "agree newc (k + m_bitlength ma) (bytearrays h1 ! rawarray mc) (m_offset mc) 0
            (m_bitlength mc)"
      using prependarray_in_memory [OF h1(1,2,3,4) p(1,2,3,4,5) oa napos p(6)]
      unfolding k_def by blast
    have o2: "objects h2 ! ?c = InMemory ByteArray
           \<lparr>rawarray = length (bytearrays h1), m_offset = k,
            m_bitlength = m_bitlength ma + m_bitlength mb\<rparr>"
        "objects h2 ! a = InMemory ca ma" "objects h2 ! b = InMemory cb mb"
        "?c < length (objects h2)"
      using a b unfolding r(2) by (simp_all add: h1_def mc_def nth_append add.commute)
    have b2: "bytearrays h2 ! length (bytearrays h1) = newc" "bytearrays h2 ! rawarray ma = ?da"
        "bytearrays h2 ! rawarray mb = ?db"
      using a b unfolding r(3) by (simp_all add: h1_def nth_append)
    show ?thesis
      using cp r(1,4,5,6) o2 b2 h1(6,7) mc k by auto
  qed
qed

section \<open>What each operation leaves in the store\<close>

text \<open>
  The shape of the store after each operation that returns, whatever the classes of the
  objects involved: a copy or a realigned copy is a new object over a new bytearray, a
  mutator changes the bytearray of its object and nothing that existed before besides.
\<close>

lemma bindE_eq_Inr: "(bindE m f = Inr x) = (\<exists>v. m = Inr v \<and> f v = Inr x)"
  by (cases m) auto

lemma copy_result:
  assumes "copy h s = Inr (h1, r)"
  shows "\<exists>d. ByteArray_fresh h d (bitlength (objects h ! s)) (offset (objects h ! s)) = (h1, r)"
  using assms
  by (cases "objects h ! s") (auto simp add: copy_def bitlength_def offset_def bindE_eq_Inr)

lemma offsetcopy_result:
  assumes "offsetcopy h s n = Inr (h1, r)"
  shows "0 \<le> n \<and> n < 8
     \<and> (\<exists>d. ByteArray_fresh h d (bitlength (objects h ! s))
                 (if bitlength (objects h ! s) = 0 then offset (objects h ! s) else n) = (h1, r))"
proof -
  have n: "0 \<le> n \<and> n < 8" using assms by (auto simp add: offsetcopy_def Let_def split: if_splits)
  show ?thesis
  proof (cases "bitlength (objects h ! s) = 0")
    case True
    then have "copy h s = Inr (h1, r)" using assms n by (simp add: offsetcopy_def Let_def)
    then show ?thesis using copy_result [of h s h1 r] True n by simp
  next
    case False
    then show ?thesis
      using assms n
      by (auto simp add: offsetcopy_def Let_def bindE_eq_Inr split: if_splits)
  qed
qed

lemma update_bit_result:
  assumes "update_bit f h self pos = Inr h'"
  shows "\<exists>m d. objects h ! self = InMemory ByteArray m \<and> h' = set_bytes h (rawarray m) d"
  using assms
  by (auto simp add: update_bit_def Let_def bindE_eq_Inr split: array.splits cls.splits if_splits)

lemma setbyte_result:
  assumes "setbyte h self pos v = Inr h'"
  shows "\<exists>m d. objects h ! self = InMemory ByteArray m \<and> h' = set_bytes h (rawarray m) d"
  using assms
  by (auto simp add: setbyte_def bindE_eq_Inr split: array.splits cls.splits)

lemma setbyteslice_result:
  assumes "setbyteslice h self start stop vs = Inr h'"
  shows "\<exists>m d. objects h ! self = InMemory ByteArray m \<and> h' = set_bytes h (rawarray m) d"
  using assms
  by (auto simp add: setbyteslice_def bindE_eq_Inr split: array.splits cls.splits)

lemma appendarray_result:
  assumes "appendarray h self array = Inr h'"
  shows "\<exists>m. objects h ! self = InMemory ByteArray m
     \<and> ((bitlength (objects h ! array) = 0 \<and> h' = h)
        \<or> (\<exists>d newc. bitlength (objects h ! array) \<noteq> 0
             \<and> bytearrays h' = (bytearrays h @ [d])[rawarray m := newc]
             \<and> objects h' = (objects h @ [InMemory ByteArray
                   \<lparr>rawarray = length (bytearrays h),
                    m_offset = (m_offset m + m_bitlength m) mod 8,
                    m_bitlength = bitlength (objects h ! array)\<rparr>])
                 [self := InMemory ByteArray
                    (m\<lparr>m_bitlength := m_bitlength m + bitlength (objects h ! array)\<rparr>)]))"
proof -
  obtain m where m: "objects h ! self = InMemory ByteArray m"
    using assms by (auto simp add: appendarray_def split: array.splits cls.splits)
  show ?thesis
  proof (cases "bitlength (objects h ! array) = 0")
    case True
    then show ?thesis using assms m by (simp add: appendarray_def)
  next
    case False
    let ?k = "(m_offset m + m_bitlength m) mod 8"
    obtain h1 arr where oc: "offsetcopy h array ?k = Inr (h1, arr)"
      using assms m False by (auto simp add: appendarray_def bindE_eq_Inr)
    obtain d where d: "ByteArray_fresh h d (bitlength (objects h ! array)) ?k = (h1, arr)"
      using offsetcopy_result [OF oc] False by auto
    define arrobj where "arrobj = InMemory ByteArray \<lparr>rawarray = length (bytearrays h),
        m_offset = ?k, m_bitlength = bitlength (objects h ! array)\<rparr>"
    have h1: "h1 = \<lparr>bytearrays = bytearrays h @ [d], objects = objects h @ [arrobj]\<rparr>"
        "arr = length (objects h)"
      using d by (simp_all add: ByteArray_fresh_eq arrobj_def)
    have sl: "slots (objects h1 ! arr) = \<lparr>rawarray = length (bytearrays h),
        m_offset = ?k, m_bitlength = bitlength (objects h ! array)\<rparr>"
      by (simp add: h1 slots_def arrobj_def)
    obtain h4 where h4: "h' = set_object h4 self (InMemory ByteArray
          (m\<lparr>m_bitlength := m_bitlength m + bitlength (objects h ! array)\<rparr>))"
        "\<exists>newc. h4 = set_bytes h1 (rawarray m) newc"
      using assms m False oc sl
      by (auto simp add: appendarray_def bindE_eq_Inr Let_def set_bytes_def split: if_splits)
    then obtain newc where "h4 = set_bytes h1 (rawarray m) newc" by blast
    then have "bytearrays h' = (bytearrays h @ [d])[rawarray m := newc]"
      "objects h' = (objects h @ [arrobj])[self := InMemory ByteArray
          (m\<lparr>m_bitlength := m_bitlength m + bitlength (objects h ! array)\<rparr>)]"
      using h4(1) h1 by (simp_all add: set_bytes_simps set_object_simps)
    then show ?thesis using m False unfolding arrobj_def by blast
  qed
qed

lemma update_last: "(xs @ [x])[length xs := y] = xs @ [y]"
  by simp

lemma prependarray_result:
  assumes "prependarray h self array = Inr h'"
  shows "\<exists>m. objects h ! self = InMemory ByteArray m
     \<and> ((bitlength (objects h ! array) = 0 \<and> h' = h)
        \<or> (\<exists>d. bitlength (objects h ! array) \<noteq> 0
             \<and> bytearrays h' = bytearrays h @ [d]
             \<and> objects h' = (objects h @ [InMemory ByteArray
                   \<lparr>rawarray = length (bytearrays h),
                    m_offset = (m_offset m - bitlength (objects h ! array)) mod 8,
                    m_bitlength = bitlength (objects h ! array)\<rparr>])
                 [self := InMemory ByteArray
                    \<lparr>rawarray = length (bytearrays h),
                     m_offset = (m_offset m - bitlength (objects h ! array)) mod 8,
                     m_bitlength = m_bitlength m + bitlength (objects h ! array)\<rparr>]))"
proof -
  obtain m where m: "objects h ! self = InMemory ByteArray m"
    using assms by (auto simp add: prependarray_def split: array.splits cls.splits)
  show ?thesis
  proof (cases "bitlength (objects h ! array) = 0")
    case True
    then show ?thesis using assms m by (simp add: prependarray_def)
  next
    case False
    let ?k = "(m_offset m - bitlength (objects h ! array)) mod 8"
    obtain h1 arr where oc: "offsetcopy h array ?k = Inr (h1, arr)"
      using assms m False by (auto simp add: prependarray_def bindE_eq_Inr)
    obtain d where d: "ByteArray_fresh h d (bitlength (objects h ! array)) ?k = (h1, arr)"
      using offsetcopy_result [OF oc] False by auto
    define am where "am = \<lparr>rawarray = length (bytearrays h),
        m_offset = ?k, m_bitlength = bitlength (objects h ! array)\<rparr>"
    have h1: "h1 = \<lparr>bytearrays = bytearrays h @ [d], objects = objects h @ [InMemory ByteArray am]\<rparr>"
        "arr = length (objects h)"
      using d by (auto simp add: ByteArray_fresh_eq am_def)
    have obj: "objects h1 ! arr = InMemory ByteArray am"
      by (simp add: h1)
    have sl: "slots (objects h1 ! arr) = am"
      by (simp add: obj slots_def)
    have sb: "\<exists>x. h2 = set_bytes h1 (rawarray am) x" if "setbyte h1 arr p v = Inr h2" for p v h2
      using setbyte_result [OF that] obj by auto
    have "\<exists>h3 x. h3 = set_bytes h1 (rawarray am) x \<and> h' = set_object h3 self (InMemory ByteArray
             \<lparr>rawarray = rawarray am, m_offset = m_offset am,
              m_bitlength = m_bitlength m + m_bitlength am\<rparr>)"
      using assms m False oc sl
      by (auto simp add: prependarray_def bindE_eq_Inr Let_def set_bytes_def
          dest!: sb split: if_splits)
    then obtain x where "h' = set_object (set_bytes h1 (rawarray am) x) self (InMemory ByteArray
             \<lparr>rawarray = rawarray am, m_offset = m_offset am,
              m_bitlength = m_bitlength m + m_bitlength am\<rparr>)"
      by blast
    then have "bytearrays h' = bytearrays h @ [x]"
      "objects h' = (objects h @ [InMemory ByteArray am])[self := InMemory ByteArray
             \<lparr>rawarray = rawarray am, m_offset = m_offset am,
              m_bitlength = m_bitlength m + m_bitlength am\<rparr>]"
      using h1 by (simp_all add: set_bytes_simps set_object_simps am_def)
    then show ?thesis using m False unfolding am_def by auto
  qed
qed

lemma same_view_reads:
  assumes "same_view h h' s"
  shows "getbit h' s i = getbit h s i" "getbyte h' s i = getbyte h s i"
    "getbyteslice h' s i j = getbyteslice h s i j"
  using assms
  by (auto simp add: same_view_def getbit_def getbyte_def getbyteslice_def split: array.splits)

lemma mutate_frame:
  assumes "mutate h x \<mu> = Inr h'"
  shows "\<exists>m. objects h ! x = InMemory ByteArray m
     \<and> (\<forall>y. y \<noteq> x \<longrightarrow> y < length (objects h) \<longrightarrow> objects h' ! y = objects h ! y)
     \<and> (\<forall>a. a \<noteq> rawarray m \<longrightarrow> a < length (bytearrays h)
            \<longrightarrow> bytearrays h' ! a = bytearrays h ! a)"
proof (cases \<mu>)
  case (Setbit p)
  then have "update_bit (\<lambda>v mask. v OR mask) h x p = Inr h'"
    using assms by (simp add: setbit_def)
  from update_bit_result [OF this] show ?thesis
    by (auto simp add: set_bytes_simps)
next
  case (Unsetbit p)
  then have "update_bit (\<lambda>v mask. v AND NOT mask) h x p = Inr h'"
    using assms by (simp add: unsetbit_def)
  from update_bit_result [OF this] show ?thesis
    by (auto simp add: set_bytes_simps)
next
  case (Invertbit p)
  then have "update_bit (\<lambda>v mask. v XOR mask) h x p = Inr h'"
    using assms by (simp add: invertbit_def)
  from update_bit_result [OF this] show ?thesis
    by (auto simp add: set_bytes_simps)
next
  case (Setbyte p v)
  then show ?thesis using setbyte_result [of h x p v h'] assms
    by (auto simp add: set_bytes_simps)
next
  case (Setbyteslice p q vs)
  then show ?thesis using setbyteslice_result [of h x p q vs h'] assms
    by (auto simp add: set_bytes_simps)
next
  case (Appendarray y)
  then show ?thesis using appendarray_result [of h x y h'] assms
    by (auto simp add: nth_append)
next
  case (Prependarray y)
  then show ?thesis using prependarray_result [of h x y h'] assms
    by (auto simp add: nth_append)
qed

lemma offsetcopy_fresh:
  assumes "offsetcopy h s n = Inr (h1, r)"
  shows "\<exists>d bl off. bytearrays h1 = bytearrays h @ [d]
     \<and> objects h1 = objects h @ [InMemory ByteArray
          \<lparr>rawarray = length (bytearrays h), m_offset = off, m_bitlength = bl\<rparr>]
     \<and> r = length (objects h)"
  using offsetcopy_result [OF assms] by (auto simp add: ByteArray_fresh_eq)

lemma FileArray_init_result:
  assumes "FileArray_init h src obl off = Inr (h', r)"
  shows "\<exists>f. objects h' = objects h @ [FileArray f] \<and> r = length (objects h)
     \<and> f_offset f = off mod 8 \<and> bytearrays h' = bytearrays h"
  using assms
  by (auto simp add: FileArray_init_def Let_def new_object_def split: if_splits)

lemma slice_array_offset:
  assumes "slice_array h s bl off = Inr (h', r)"
  shows "offset (objects h' ! r) =
     (case objects h ! s of InMemory c m \<Rightarrow> m_offset m + off
      | FileArray f \<Rightarrow> (f_offset f + off) mod 8)"
proof (cases "objects h ! s")
  case (InMemory c m)
  then show ?thesis using assms
    by (auto simp add: slice_array_def ByteArray_init_def new_object_def offset_def)
next
  case (FileArray f)
  then have "FileArray_init h (source f) (Some bl) (8 * f_byteoffset f + f_offset f + off)
      = Inr (h', r)"
    using assms by (simp add: slice_array_def)
  moreover have "(8 * f_byteoffset f + f_offset f + off) mod 8 = (f_offset f + off) mod 8"
    by (simp add: add.assoc)
  ultimately show ?thesis
    using FileArray_init_result
      [of h "source f" "Some bl" "8 * f_byteoffset f + f_offset f + off" h' r] FileArray
    by (auto simp add: offset_def)
qed

lemma offsetcopy_offset:
  assumes "offsetcopy h s n = Inr (h', r)"
  shows "0 \<le> n \<and> n < 8 \<and> offset (objects h' ! r) =
     (if bitlength (objects h ! s) = 0 then offset (objects h ! s) else n)"
  using offsetcopy_result [OF assms]
  by (auto simp add: ByteArray_fresh_eq offset_def)

lemma copy_offset:
  assumes "copy h s = Inr (h', r)"
  shows "offset (objects h' ! r) = offset (objects h ! s)"
  using copy_result [OF assms]
  by (auto simp add: ByteArray_fresh_eq offset_def)

lemma appendarray_offset:
  assumes "appendarray h self s = Inr h'" "self < length (objects h)"
  shows "offset (objects h' ! self) = offset (objects h ! self)"
  using appendarray_result [OF assms(1)] assms(2)
  by (auto simp add: offset_def)

lemma prependarray_offset:
  assumes "prependarray h self s = Inr h'" "self < length (objects h)"
  shows "offset (objects h' ! self) =
     (if bitlength (objects h ! s) = 0 then offset (objects h ! self)
      else (offset (objects h ! self) - bitlength (objects h ! s)) mod 8)"
  using prependarray_result [OF assms(1)] assms(2)
  by (auto simp add: offset_def)

section \<open>Reading one bit\<close>

text \<open>
  Claim C8.  For an in-memory buffer and a position \<open>pos\<close> in \<open>[0, bitlength)\<close>,
  \<^verbatim>\<open>getbit(pos)\<close> takes \<open>(byte, bit) = divmod(offset + pos, 8)\<close> and returns bit
  \<open>7 - bit\<close> of \<^verbatim>\<open>d[byte]\<close> (and raises what \<^verbatim>\<open>d[byte]\<close> raises).  Over the byte
  \<^verbatim>\<open>0b10110100\<close> with offset 2 and four bits, the bits read are 1, 1, 0, 1.
\<close>

theorem getbit_in_memory:
  assumes "objects h ! self = InMemory c m" and "0 \<le> pos" and "pos < m_bitlength m"
  shows "getbit h self pos =
           bindE (getitem (bytearrays h ! rawarray m) ((m_offset m + pos) div 8))
             (\<lambda>v. Inr (bit v (7 - nat ((m_offset m + pos) mod 8))))
         \<and> getbit store_b4 0 0 = Inr True \<and> getbit store_b4 0 1 = Inr True
         \<and> getbit store_b4 0 2 = Inr False \<and> getbit store_b4 0 3 = Inr True"
proof -
  have k: "nat ((m_offset m + pos) mod 8) < 8" by simp
  have "getbit h self pos =
           bindE (getitem (bytearrays h ! rawarray m) ((m_offset m + pos) div 8))
             (\<lambda>v. Inr (bit v (7 - nat ((m_offset m + pos) mod 8))))"
    using assms by (simp add: getbit_def mask128_bit [OF k])
  moreover have "getbit store_b4 0 0 = Inr True \<and> getbit store_b4 0 1 = Inr True
         \<and> getbit store_b4 0 2 = Inr False \<and> getbit store_b4 0 3 = Inr True"
    by (simp add: store_b4_def getbit_def getitem_def)
  ultimately show ?thesis by simp
qed

theorem getbit_in_memory_witness:
  "objects store_b4 ! 0 = InMemory ByteArray \<lparr>rawarray = 0, m_offset = 2, m_bitlength = 4\<rparr>
   \<and> (0::int) \<le> 3 \<and> (3::int) < 4
   \<and> getbit store_b4 0 3 = bindE (getitem [0xB4] 0) (\<lambda>v. Inr (bit v 2))
   \<and> getitem [0xB4] 0 = Inr 180 \<and> bit (180::int) 2"
  using getbit_in_memory [of store_b4 0 ByteArray
      "\<lparr>rawarray = 0, m_offset = 2, m_bitlength = 4\<rparr>" 3]
  by (simp add: store_b4_def getitem_def)

section \<open>Constructing a file-backed buffer\<close>

text \<open>
  Claim C6.  For a requested offset \<open>off \<ge> 0\<close> and a requested bitlength \<open>bl \<ge> 0\<close>,
  with \<open>(byteoffset, bitoffset) = divmod(off, 8)\<close>: \<^verbatim>\<open>FileArray(source, bl, off)\<close>
  raises \<^verbatim>\<open>CreationError\<close> exactly when \<open>bl > (fileSize - byteoffset) * 8 - bitoffset\<close>,
  and otherwise returns a buffer of bitlength \<open>bl\<close> and offset \<open>bitoffset\<close>.
\<close>

theorem FileArray_init_window:
  assumes "0 \<le> off" and "0 \<le> bl"
  shows "if bl > (int (length src) - off div 8) * 8 - off mod 8
         then FileArray_init h src (Some bl) off = Inl CreationError
         else \<exists>h' r. FileArray_init h src (Some bl) off = Inr (h', r)
                \<and> bitlength (objects h' ! r) = bl \<and> offset (objects h' ! r) = off mod 8"
proof -
  have "((bl + off mod 8 + 7) div 8 > int (length src) - off div 8)
        = (bl > (int (length src) - off div 8) * 8 - off mod 8)"
    using ceil8_less [of "int (length src) - off div 8" "bl + off mod 8"] by linarith
  then show ?thesis
    by (auto simp add: FileArray_init_def Let_def new_object_def bitlength_def offset_def)
qed

theorem FileArray_init_window_witness:
  "(0::int) \<le> 3 \<and> (0::int) \<le> 12
   \<and> (\<exists>h' r. FileArray_init \<lparr>bytearrays = [], objects = []\<rparr> [0xAB, 0xCD] (Some 12) 3
                  = Inr (h', r)
                \<and> bitlength (objects h' ! r) = 12 \<and> offset (objects h' ! r) = 3)"
  using FileArray_init_window [of 3 12 "[0xAB, 0xCD]" "\<lparr>bytearrays = [], objects = []\<rparr>"]
  by simp

section \<open>Reading one byte at a negative position\<close>

text \<open>
  Claim C9 says that \<^verbatim>\<open>getbyte(pos)\<close> with \<open>-n \<le> pos < 0\<close> returns byte \<open>n + pos\<close> of
  the addressed region, whatever storage lies around it.  \<^verbatim>\<open>FileArray.getbyte\<close> adds
  \<^verbatim>\<open>bytelength\<close> to a negative position and does so.  \<^verbatim>\<open>ConstByteArray.getbyte\<close>
  hands \<open>pos + byteoffset\<close> to the bytearray, which counts a negative index from the end
  of the storage: over the storage 1, 2, 3 a buffer of one byte (offset 0, eight bits)
  answers \<^verbatim>\<open>getbyte(-1)\<close> with 3, while its only byte is 1.
\<close>

theorem getbyte_negative_in_memory:
  "bytelength (objects store_123 ! 0) = 1 \<and> byteoffset (objects store_123 ! 0) = 0
   \<and> getbyte store_123 0 0 = Inr 1 \<and> getbyte store_123 0 (- 1) = Inr 3"
  by (simp add: store_123_def bytelength_def byteoffset_def getbyte_def getitem_def)

lemma FileArray_getbyte_negative:
  "pos < 0 \<Longrightarrow> - f_bytelength f \<le> pos \<Longrightarrow>
     FileArray_getbyte f pos = FileArray_getbyte f (f_bytelength f + pos)"
  by (simp add: FileArray_getbyte_def add.commute)

section \<open>Equality across representations\<close>

text \<open>
  Claim C1 says that \<^verbatim>\<open>equal(a, b)\<close> is true exactly when the bitlengths agree and
  every bit agrees, for in-memory and file-backed buffers alike.  When one buffer is in
  memory and the other is file-backed, the \<^verbatim>\<open>except AttributeError\<close> branch makes
  \<open>da\<close> and \<open>db\<close> the two objects, and indexing the in-memory one raises
  \<^verbatim>\<open>TypeError\<close>: here both buffers hold the bits 1111.
\<close>

theorem equal_mixed_pair_raises:
  "bitlength (objects store_mixed ! 0) = bitlength (objects store_mixed ! 1)
   \<and> map (getbit store_mixed 0) [0, 1, 2, 3] = map (getbit store_mixed 1) [0, 1, 2, 3]
   \<and> equal store_mixed 0 1 = Inl TypeError"
  by code_simp

text \<open>
  Claim C7 says that a file-backed buffer and an in-memory buffer over the same bytes
  and the same bit window are equal in both orders.  Built by the two constructors over
  the bytes \<^verbatim>\<open>A5 3C\<close> with eleven bits from bit 3, \<^verbatim>\<open>equal\<close> raises \<^verbatim>\<open>TypeError\<close> in
  both orders.
\<close>

theorem equal_file_memory_raises:
  "FileArray_init \<lparr>bytearrays = [[0xA5, 0x3C]], objects = []\<rparr> [0xA5, 0x3C] (Some 11) 3
     = Inr (\<lparr>bytearrays = [[0xA5, 0x3C]], objects = [objects store_window ! 0]\<rparr>, 0)
   \<and> ByteArray_init \<lparr>bytearrays = [[0xA5, 0x3C]], objects = [objects store_window ! 0]\<rparr>
         ByteArray 0 11 3 = (store_window, 1)
   \<and> equal store_window 0 1 = Inl TypeError \<and> equal store_window 1 0 = Inl TypeError"
  by code_simp

section \<open>Realignment of a file-backed buffer\<close>

text \<open>
  Claim C4 says that \<^verbatim>\<open>offsetcopy(offsetcopy(x, n0), x.offset % 8)\<close> has the bits of
  \<open>x\<close>.  For a file-backed \<open>x\<close> that starts at byte 1 of its file, \<^verbatim>\<open>__getitem__\<close> adds
  \<^verbatim>\<open>byteoffset\<close> to an index that already holds it (and \<^verbatim>\<open>getbyte\<close> adds it once more),
  so the shifting loop reads byte 3 of the file where it wants byte 1: the last bit of
  \<open>x\<close>, which is 1, comes back 0.
\<close>

theorem offsetcopy_file_round_trip_loses_bit:
  "FileArray_init \<lparr>bytearrays = [], objects = []\<rparr> [0x00, 0xFF, 0x00, 0x00] (Some 8) 8
     = Inr (store_file, 0)
   \<and> offsetcopy store_file 0 1 = Inr (store_file1, 1)
   \<and> offsetcopy store_file1 1 (offset (objects store_file ! 0) mod 8) = Inr (store_file2, 2)
   \<and> bitlength (objects store_file2 ! 2) = bitlength (objects store_file2 ! 0)
   \<and> getbit store_file2 0 7 = Inr True \<and> getbit store_file2 2 7 = Inr False"
  by code_simp

section \<open>Prepending a file-backed buffer\<close>

text \<open>
  Claim C3 says that after \<^verbatim>\<open>c = copy(b); c.prependarray(a)\<close> the first
  \<open>a.bitlength\<close> bits of \<open>c\<close> are structurally equal to \<open>a\<close>.  With \<open>a\<close> file-backed,
  \<^verbatim>\<open>prependarray\<close> builds the right bits, and \<^verbatim>\<open>equal\<close> of the slice and \<open>a\<close> raises
  \<^verbatim>\<open>TypeError\<close>.
\<close>

theorem prependarray_file_slice_equal_raises:
  "copy store_pre 1 = Inr (store_pre1, 2)
   \<and> prependarray store_pre1 2 0 = Inr store_pre2
   \<and> bitlength (objects store_pre2 ! 2) = 8
   \<and> slice_array store_pre2 2 4 0 = Inr (store_pre3, 4)
   \<and> map (getbit store_pre3 4) [0, 1, 2, 3] = map (getbit store_pre3 0) [0, 1, 2, 3]
   \<and> equal store_pre3 4 0 = Inl TypeError"
  by code_simp

section \<open>Appending and slicing\<close>

text \<open>
  Claim C2 says that after \<^verbatim>\<open>c = copy(a); c.appendarray(b)\<close> the bitlength of \<open>c\<close> is
  the sum, the first \<open>a.bitlength\<close> bits of \<open>c\<close> are structurally equal to \<open>a\<close> and the
  rest to \<open>b\<close>.  That is what the docstring of \<^verbatim>\<open>appendarray\<close> promises, and the rest
  of the module reads a buffer whose storage is longer than its bits by its
  \<^verbatim>\<open>bytelength\<close>, as \<^verbatim>\<open>prependarray\<close> does.  \<^verbatim>\<open>appendarray\<close> instead pops and extends
  the end of the storage, whatever the bitlength.  Here \<open>a\<close> addresses four bits of a
  storage of two bytes, which \<^verbatim>\<open>copy\<close> keeps: the join byte is taken from the second
  byte, and the four bits after the first four of \<open>c\<close> are 1111, not the 0000 of \<open>b\<close>,
  so that \<^verbatim>\<open>equal(slice(c, 4, 4), b)\<close> returns \<^verbatim>\<open>False\<close>.
\<close>

theorem appendarray_trailing_storage_counterexample:
  "copy store_ff 0 = Inr (store_ff1, 2)
   \<and> appendarray store_ff1 2 1 = Inr store_ff2
   \<and> slice_array store_ff2 2 4 4 = Inr (store_ff3, 4)
   \<and> equal store_ff3 4 1 = Inr False"
  by code_simp

section \<open>Appending to a buffer whose storage ends with its bits\<close>

text \<open>
  For in-memory buffers \<open>a\<close> and \<open>b\<close> with offsets in \<open>[0,8)\<close>, where the storage of
  \<open>a\<close> holds exactly the \<open>ceil((offset + bitlength) / 8)\<close> bytes its bits reach and the
  storage of \<open>b\<close> covers the bits of \<open>b\<close>: \<^verbatim>\<open>c = copy(a)\<close> and \<^verbatim>\<open>c.appendarray(b)\<close>
  return, \<open>c.bitlength = a.bitlength + b.bitlength\<close>,
  \<^verbatim>\<open>equal(slice(c, a.bitlength, 0), a)\<close> and
  \<^verbatim>\<open>equal(slice(c, b.bitlength, a.bitlength), b)\<close> return \<^verbatim>\<open>True\<close>.  Appending the bits
  10 (offset 6) to the bits 110011 (offset 0) gives the single byte \<^verbatim>\<open>11001110\<close> at
  offset 0.
\<close>

theorem appendarray_slices_equal:
  assumes a: "a < length (objects h)" "objects h ! a = InMemory ca ma"
      "rawarray ma < length (bytearrays h)"
    and b: "b < length (objects h)" "objects h ! b = InMemory cb mb"
      "rawarray mb < length (bytearrays h)"
    and oa: "0 \<le> m_offset ma" "m_offset ma < 8" and na: "0 \<le> m_bitlength ma"
    and ob: "0 \<le> m_offset mb" "m_offset mb < 8" and nb: "0 \<le> m_bitlength mb"
    and exact: "int (length (bytearrays h ! rawarray ma))
                  = (m_offset ma + m_bitlength ma + 7) div 8"
    and covb: "m_offset mb + m_bitlength mb \<le> 8 * int (length (bytearrays h ! rawarray mb))"
  shows "(\<exists>h1 c h2 h3 s1 h4 s2.
      copy h a = Inr (h1, c) \<and> appendarray h1 c b = Inr h2
      \<and> bitlength (objects h2 ! c) = m_bitlength ma + m_bitlength mb
      \<and> slice_array h2 c (m_bitlength ma) 0 = Inr (h3, s1) \<and> equal h3 s1 a = Inr True
      \<and> slice_array h3 c (m_bitlength mb) (m_bitlength ma) = Inr (h4, s2)
      \<and> equal h4 s2 b = Inr True)
    \<and> copy store_join 0 = Inr (store_join1, 2)
    \<and> appendarray store_join1 2 1 = Inr store_join2
    \<and> objects store_join2 ! 2 = InMemory ByteArray \<lparr>rawarray = 2, m_offset = 0, m_bitlength = 8\<rparr>
    \<and> bytearrays store_join2 ! 2 = [0xCE]"
proof -
  let ?da = "bytearrays h ! rawarray ma" and ?db = "bytearrays h ! rawarray mb"
  let ?c = "length (objects h)" and ?rc = "length (bytearrays h)"
  let ?oa = "m_offset ma" and ?na = "m_bitlength ma" and ?nb = "m_bitlength mb"
  obtain h1 h2 newc where r: "copy h a = Inr (h1, ?c)" "appendarray h1 ?c b = Inr h2"
      "?c < length (objects h2)"
      "objects h2 ! ?c = InMemory ByteArray
           \<lparr>rawarray = ?rc, m_offset = ?oa, m_bitlength = ?na + ?nb\<rparr>"
      "objects h2 ! a = InMemory ca ma" "objects h2 ! b = InMemory cb mb"
      "bytearrays h2 ! ?rc = newc" "bytearrays h2 ! rawarray ma = ?da"
      "bytearrays h2 ! rawarray mb = ?db"
      "?oa + ?na + ?nb \<le> 8 * int (length newc)"
      "agree newc ?oa ?da ?oa 0 ?na"
      "agree newc (?oa + ?na) ?db (m_offset mb) 0 ?nb"
    using appendarray_after_copy [OF a b oa(1) na ob nb exact covb] by blast
  define ms1 where "ms1 = \<lparr>rawarray = ?rc, m_offset = ?oa + 0, m_bitlength = ?na\<rparr>"
  define h3 where "h3 = h2\<lparr>objects := objects h2 @ [InMemory ByteArray ms1]\<rparr>"
  define ms2 where "ms2 = \<lparr>rawarray = ?rc, m_offset = ?oa + ?na, m_bitlength = ?nb\<rparr>"
  define h4 where "h4 = h3\<lparr>objects := objects h3 @ [InMemory ByteArray ms2]\<rparr>"
  have lt: "a < length (objects h2)" "b < length (objects h2)" using a(1) b(1) r(3) by simp_all
  have s1: "slice_array h2 ?c ?na 0 = Inr (h3, length (objects h2))"
    using slice_array_in_memory [OF r(4), of ?na 0] by (simp add: h3_def ms1_def)
  have o3: "objects h3 ! length (objects h2) = InMemory ByteArray ms1"
      "objects h3 ! a = InMemory ca ma" "objects h3 ! b = InMemory cb mb"
      "objects h3 ! ?c = InMemory ByteArray
           \<lparr>rawarray = ?rc, m_offset = ?oa, m_bitlength = ?na + ?nb\<rparr>"
      "bytearrays h3 = bytearrays h2" "length (objects h3) = Suc (length (objects h2))"
    using lt r(3,4,5,6) by (simp_all add: h3_def nth_append)
  have s2: "slice_array h3 ?c ?nb ?na = Inr (h4, length (objects h3))"
    using slice_array_in_memory [OF o3(4), of ?nb ?na] by (simp add: h4_def ms2_def)
  have o4: "objects h4 ! length (objects h3) = InMemory ByteArray ms2"
      "objects h4 ! b = InMemory cb mb" "bytearrays h4 = bytearrays h2"
    using lt o3 by (simp_all add: h4_def nth_append)
  have cova: "?oa + ?na \<le> 8 * int (length ?da)"
    using exact ceil8_cover [of "?oa + ?na"] by simp
  have e1: "equal h3 (length (objects h2)) a = Inr True"
  proof -
    have "equal h3 (length (objects h2)) a = Inr (m_bitlength ms1 = ?na
           \<and> agree (bytearrays h3 ! rawarray ms1) (m_offset ms1)
                   (bytearrays h3 ! rawarray ma) ?oa 0 (m_bitlength ms1))"
      by (rule equal_in_memory [OF o3(1,2)])
         (use oa na nb r(7,8,10) cova o3(5) in \<open>simp_all add: ms1_def\<close>)
    then show ?thesis using r(7,8,11) o3(5) by (simp add: ms1_def)
  qed
  have e2: "equal h4 (length (objects h3)) b = Inr True"
  proof -
    have "equal h4 (length (objects h3)) b = Inr (m_bitlength ms2 = ?nb
           \<and> agree (bytearrays h4 ! rawarray ms2) (m_offset ms2)
                   (bytearrays h4 ! rawarray mb) (m_offset mb) 0 (m_bitlength ms2))"
      by (rule equal_in_memory [OF o4(1,2)])
         (use oa na nb ob r(7,9,10) covb o4(3) in \<open>simp_all add: ms2_def\<close>)
    then show ?thesis using r(7,9,12) o4(3) by (simp add: ms2_def)
  qed
  have bl: "bitlength (objects h2 ! ?c) = ?na + ?nb" using r(4) by (simp add: bitlength_def)
  have general: "\<exists>h1 c h2 h3 s1 h4 s2.
      copy h a = Inr (h1, c) \<and> appendarray h1 c b = Inr h2
      \<and> bitlength (objects h2 ! c) = ?na + ?nb
      \<and> slice_array h2 c ?na 0 = Inr (h3, s1) \<and> equal h3 s1 a = Inr True
      \<and> slice_array h3 c ?nb ?na = Inr (h4, s2)
      \<and> equal h4 s2 b = Inr True"
    using r(1,2) bl s1 e1 s2 e2 by blast
  have scenario: "copy store_join 0 = Inr (store_join1, 2)
    \<and> appendarray store_join1 2 1 = Inr store_join2
    \<and> objects store_join2 ! 2 = InMemory ByteArray \<lparr>rawarray = 2, m_offset = 0, m_bitlength = 8\<rparr>
    \<and> bytearrays store_join2 ! 2 = [0xCE]"
    by code_simp
  from general scenario show ?thesis by blast
qed

theorem appendarray_slices_equal_witness:
  "0 < length (objects store_join)
   \<and> objects store_join ! 0 = InMemory ByteArray \<lparr>rawarray = 0, m_offset = 0, m_bitlength = 6\<rparr>
   \<and> objects store_join ! 1 = InMemory ByteArray \<lparr>rawarray = 1, m_offset = 6, m_bitlength = 2\<rparr>
   \<and> int (length (bytearrays store_join ! 0)) = (0 + 6 + 7) div 8
   \<and> (6::int) + 2 \<le> 8 * int (length (bytearrays store_join ! 1))
   \<and> (\<exists>h1 c h2 h3 s1 h4 s2.
      copy store_join 0 = Inr (h1, c) \<and> appendarray h1 c 1 = Inr h2
      \<and> bitlength (objects h2 ! c) = 6 + 2
      \<and> slice_array h2 c 6 0 = Inr (h3, s1) \<and> equal h3 s1 0 = Inr True
      \<and> slice_array h3 c 2 6 = Inr (h4, s2)
      \<and> equal h4 s2 1 = Inr True)"
proof -
  let ?ma = "\<lparr>rawarray = 0, m_offset = 0, m_bitlength = 6\<rparr>"
  let ?mb = "\<lparr>rawarray = 1, m_offset = 6, m_bitlength = 2\<rparr>"
  have a: "0 < length (objects store_join)" "objects store_join ! 0 = InMemory ByteArray ?ma"
      "rawarray ?ma < length (bytearrays store_join)"
    and b: "1 < length (objects store_join)" "objects store_join ! 1 = InMemory ByteArray ?mb"
      "rawarray ?mb < length (bytearrays store_join)"
    and o: "0 \<le> m_offset ?ma" "m_offset ?ma < 8" "0 \<le> m_bitlength ?ma"
      "0 \<le> m_offset ?mb" "m_offset ?mb < 8" "0 \<le> m_bitlength ?mb"
    and exact: "int (length (bytearrays store_join ! rawarray ?ma))
                  = (m_offset ?ma + m_bitlength ?ma + 7) div 8"
    and covb: "m_offset ?mb + m_bitlength ?mb \<le> 8 * int (length (bytearrays store_join ! rawarray ?mb))"
    by (simp_all add: store_join_def)
  have c: "\<exists>h1 c h2 h3 s1 h4 s2.
      copy store_join 0 = Inr (h1, c) \<and> appendarray h1 c 1 = Inr h2
      \<and> bitlength (objects h2 ! c) = 6 + 2
      \<and> slice_array h2 c 6 0 = Inr (h3, s1) \<and> equal h3 s1 0 = Inr True
      \<and> slice_array h3 c 2 6 = Inr (h4, s2)
      \<and> equal h4 s2 1 = Inr True"
    using appendarray_slices_equal [OF a b o exact covb, THEN conjunct1] by simp
  have e: "int (length (bytearrays store_join ! 0)) = (0 + 6 + 7) div 8"
      "(6::int) + 2 \<le> 8 * int (length (bytearrays store_join ! 1))"
    using exact covb by simp_all
  from a(1,2) b(2) e c show ?thesis by blast
qed

section \<open>The offset of a buffer\<close>

text \<open>
  Claim C5 says that every buffer produced or left behind by a public operation has
  \<open>0 \<le> offset < 8\<close>, in particular the buffer returned by \<^verbatim>\<open>slice\<close>.  For an in-memory
  buffer \<^verbatim>\<open>slice\<close> passes \<^verbatim>\<open>ba.offset + offset\<close> to the constructor, which stores it as
  it is; the whole bytes in it are what \<^verbatim>\<open>byteoffset\<close> reads back.  The view of the second
  byte of a buffer of sixteen bits has offset 8.
\<close>

theorem slice_array_offset_counterexample:
  "slice_array store_abcd 0 8 8 = Inr (store_abcd1, 1)
   \<and> bitlength (objects store_abcd ! 0) = 16
   \<and> offset (objects store_abcd1 ! 1) = 8
   \<and> getbyte store_abcd1 1 0 = Inr 0xCD"
  by code_simp

text \<open>
  Claim C5 as amended, operation by operation, for every call that returns.
  Construction from bytes stores the offset it is given.  Construction from a file
  stores the requested offset modulo 8, which is in \<open>[0,8)\<close>.  A copy has the offset of
  its source.  \<^verbatim>\<open>slice\<close> of an in-memory buffer has the sum of the two offsets, not
  reduced; \<^verbatim>\<open>slice\<close> of a file-backed buffer has the sum modulo 8.  \<^verbatim>\<open>offsetcopy\<close>
  returns only for a new offset in \<open>[0,8)\<close>, and the result has that offset, or the
  offset of the source when the source has no bits.  \<^verbatim>\<open>appendarray\<close> leaves the offset
  of its object as it was.  \<^verbatim>\<open>prependarray\<close> leaves it as it was when the argument has
  no bits, and otherwise sets it to the old offset minus the bitlength of the argument,
  modulo 8.
\<close>

theorem offset_after_operations:
  "(ByteArray_init h c data bl off = (h', r) \<longrightarrow> offset (objects h' ! r) = off)
   \<and> (FileArray_init h src obl off = Inr (h', r) \<longrightarrow>
        offset (objects h' ! r) = off mod 8
        \<and> 0 \<le> offset (objects h' ! r) \<and> offset (objects h' ! r) < 8)
   \<and> (copy h s = Inr (h', r) \<longrightarrow> offset (objects h' ! r) = offset (objects h ! s))
   \<and> (slice_array h s bl off = Inr (h', r) \<longrightarrow>
        offset (objects h' ! r) =
          (case objects h ! s of InMemory c m \<Rightarrow> m_offset m + off
           | FileArray f \<Rightarrow> (f_offset f + off) mod 8))
   \<and> (offsetcopy h s n = Inr (h', r) \<longrightarrow>
        0 \<le> n \<and> n < 8
        \<and> offset (objects h' ! r) =
            (if bitlength (objects h ! s) = 0 then offset (objects h ! s) else n))
   \<and> (appendarray h self s = Inr h'' \<and> self < length (objects h) \<longrightarrow>
        offset (objects h'' ! self) = offset (objects h ! self))
   \<and> (prependarray h self s = Inr h'' \<and> self < length (objects h) \<longrightarrow>
        offset (objects h'' ! self) =
          (if bitlength (objects h ! s) = 0 then offset (objects h ! self)
           else (offset (objects h ! self) - bitlength (objects h ! s)) mod 8))"
proof -
  have a: "ByteArray_init h c data bl off = (h', r) \<longrightarrow> offset (objects h' ! r) = off"
    by (auto simp add: ByteArray_init_def new_object_def offset_def)
  have b: "FileArray_init h src obl off = Inr (h', r) \<longrightarrow>
        offset (objects h' ! r) = off mod 8
        \<and> 0 \<le> offset (objects h' ! r) \<and> offset (objects h' ! r) < 8"
    using FileArray_init_result [of h src obl off h' r] by (auto simp add: offset_def)
  show ?thesis
    using a b copy_offset [of h s h' r] slice_array_offset [of h s bl off h' r]
      offsetcopy_offset [of h s n h' r] appendarray_offset [of h self s h'']
      prependarray_offset [of h self s h'']
    by blast
qed

text \<open>
  The theorem at work: a file-backed buffer made at bit 8 of a file, the view of the
  second byte of sixteen bits, a realigned copy, an append and a prepend.
\<close>

theorem offset_after_operations_witness:
  "FileArray_init store_empty [0x00, 0xFF, 0x00, 0x00] (Some 8) 8 = Inr (store_file, 0)
   \<and> offset (objects store_file ! 0) = 0
   \<and> slice_array store_abcd 0 8 8 = Inr (store_abcd1, 1)
   \<and> offset (objects store_abcd1 ! 1) = 8
   \<and> offsetcopy store_b4 0 0 = Inr (store_b4_copy, 1)
   \<and> offset (objects store_b4_copy ! 1) = 0
   \<and> appendarray store_ff1 2 1 = Inr store_ff2 \<and> 2 < length (objects store_ff1)
   \<and> offset (objects store_ff2 ! 2) = offset (objects store_ff1 ! 2)
   \<and> prependarray store_pre1 2 0 = Inr store_pre2 \<and> 2 < length (objects store_pre1)
   \<and> offset (objects store_pre1 ! 2) = 4 \<and> offset (objects store_pre2 ! 2) = 0"
proof -
  have e1: "FileArray_init store_empty [0x00, 0xFF, 0x00, 0x00] (Some 8) 8 = Inr (store_file, 0)"
    by code_simp
  have e2: "slice_array store_abcd 0 8 8 = Inr (store_abcd1, 1)" by code_simp
  have e3: "offsetcopy store_b4 0 0 = Inr (store_b4_copy, 1)" by code_simp
  have e4: "appendarray store_ff1 2 1 = Inr store_ff2" "2 < length (objects store_ff1)"
    by code_simp+
  have e5: "prependarray store_pre1 2 0 = Inr store_pre2" "2 < length (objects store_pre1)"
    by code_simp+
  have w1: "offset (objects store_file ! 0) = 0"
    using offset_after_operations [where h = store_empty and src = "[0x00, 0xFF, 0x00, 0x00]"
        and obl = "Some 8" and off = 8 and h' = store_file and r = 0] e1
    by simp
  have w2: "offset (objects store_abcd1 ! 1) = 8"
    using offset_after_operations [where h = store_abcd and s = 0 and bl = 8 and off = 8
        and h' = store_abcd1 and r = 1] e2
    by (simp add: store_abcd_def)
  have w3: "offset (objects store_b4_copy ! 1) = 0"
    using offset_after_operations [where h = store_b4 and s = 0 and n = 0
        and h' = store_b4_copy and r = 1] e3
    by (simp add: store_b4_def bitlength_def)
  have w4: "offset (objects store_ff2 ! 2) = offset (objects store_ff1 ! 2)"
    using offset_after_operations [where h = store_ff1 and self = 2 and s = 1
        and h'' = store_ff2] e4
    by simp
  have w5: "offset (objects store_pre2 ! 2) = 0"
    using offset_after_operations [where h = store_pre1 and self = 2 and s = 0
        and h'' = store_pre2] e5
    by (simp add: store_pre1_def store_pre_def bitlength_def offset_def)
  have w6: "offset (objects store_pre1 ! 2) = 4" by code_simp
  show ?thesis using e1 e2 e3 e4 e5 w1 w2 w3 w4 w5 w6 by simp
qed


section \<open>Independence of a realigned copy\<close>

text \<open>
  Claim C10: the buffer returned by \<^verbatim>\<open>offsetcopy(s, newoffset)\<close> shares no storage with
  \<open>s\<close>, on every path of the function and for a file-backed \<open>s\<close> too.  Whenever the call
  returns, the result is a new object over a new bytearray and \<open>s\<close> is as it was; after
  any call of \<^verbatim>\<open>setbit\<close>, \<^verbatim>\<open>unsetbit\<close>, \<^verbatim>\<open>invertbit\<close>, \<^verbatim>\<open>setbyte\<close>, \<^verbatim>\<open>setbyteslice\<close>,
  \<^verbatim>\<open>appendarray\<close> or \<^verbatim>\<open>prependarray\<close> on the result that returns, \<open>s\<close> has the same
  slots and the same stored bytes, and reads the same bits and bytes; and after any
  such call on \<open>s\<close> the same holds of the result.
\<close>

theorem offsetcopy_shares_no_storage:
  assumes "offsetcopy h s newoffset = Inr (h1, r)" "allocated h s"
  shows "r = length (objects h) \<and> same_view h h1 s
     \<and> rawarray (slots (objects h1 ! r)) = length (bytearrays h)
     \<and> (\<forall>\<mu> h2. mutate h1 r \<mu> = Inr h2 \<longrightarrow>
           same_view h1 h2 s \<and> (\<forall>i. getbit h2 s i = getbit h1 s i)
             \<and> (\<forall>i. getbyte h2 s i = getbyte h1 s i))
     \<and> (\<forall>\<mu> h2. mutate h1 s \<mu> = Inr h2 \<longrightarrow>
           same_view h1 h2 r \<and> (\<forall>i. getbit h2 r i = getbit h1 r i)
             \<and> (\<forall>i. getbyte h2 r i = getbyte h1 r i))"
proof -
  obtain d bl off where f: "bytearrays h1 = bytearrays h @ [d]"
      "objects h1 = objects h @ [InMemory ByteArray
          \<lparr>rawarray = length (bytearrays h), m_offset = off, m_bitlength = bl\<rparr>]"
      "r = length (objects h)"
    using offsetcopy_fresh [OF assms(1)] by blast
  have s: "s < length (objects h)" using assms(2) by (simp add: allocated_def)
  have os: "objects h1 ! s = objects h ! s" using s by (simp add: f nth_append)
  have ra: "rawarray m < length (bytearrays h)" if "objects h ! s = InMemory c m" for c m
    using assms(2) that by (simp add: allocated_def)
  have v0: "same_view h h1 s"
    using os ra by (auto simp add: same_view_def f nth_append split: array.splits)
  have r: "objects h1 ! r = InMemory ByteArray
          \<lparr>rawarray = length (bytearrays h), m_offset = off, m_bitlength = bl\<rparr>"
    by (simp add: f)
  have rr: "rawarray (slots (objects h1 ! r)) = length (bytearrays h)"
    by (simp add: r slots_def)
  have v1: "same_view h1 h2 s" if "mutate h1 r \<mu> = Inr h2" for \<mu> h2
  proof -
    from mutate_frame [OF that] r
    have o: "\<forall>y. y \<noteq> r \<longrightarrow> y < length (objects h1) \<longrightarrow> objects h2 ! y = objects h1 ! y"
      and b: "\<forall>a. a \<noteq> length (bytearrays h) \<longrightarrow> a < length (bytearrays h1)
            \<longrightarrow> bytearrays h2 ! a = bytearrays h1 ! a"
      by auto
    have "objects h2 ! s = objects h1 ! s" using o s by (simp add: f)
    moreover have "bytearrays h2 ! rawarray m = bytearrays h1 ! rawarray m"
      if "objects h ! s = InMemory c m" for c m
      using b ra [OF that] by (simp add: f)
    ultimately show ?thesis using os by (auto simp add: same_view_def split: array.splits)
  qed
  have v2: "same_view h1 h2 r" if "mutate h1 s \<mu> = Inr h2" for \<mu> h2
  proof -
    from mutate_frame [OF that] os obtain m where m: "objects h ! s = InMemory ByteArray m"
      and o: "\<forall>y. y \<noteq> s \<longrightarrow> y < length (objects h1) \<longrightarrow> objects h2 ! y = objects h1 ! y"
      and b: "\<forall>a. a \<noteq> rawarray m \<longrightarrow> a < length (bytearrays h1)
            \<longrightarrow> bytearrays h2 ! a = bytearrays h1 ! a"
      by auto
    have "objects h2 ! r = objects h1 ! r" using o s by (simp add: f)
    moreover have "bytearrays h2 ! length (bytearrays h) = bytearrays h1 ! length (bytearrays h)"
      using b ra [OF m] by (simp add: f)
    ultimately show ?thesis using r by (simp add: same_view_def)
  qed
  show ?thesis
    using f(3) v0 rr v1 v2 same_view_reads(1,2) by blast
qed

text \<open>
  The theorem at work on the buffer of four bits at offset 2, realigned to offset 0:
  \<^verbatim>\<open>invertbit(0)\<close> on the copy and \<^verbatim>\<open>setbyte(0, 255)\<close> on the source.
\<close>

theorem offsetcopy_shares_no_storage_witness:
  "offsetcopy store_b4 0 0 = Inr (store_b4_copy, 1) \<and> allocated store_b4 0
   \<and> same_view store_b4 store_b4_copy 0
   \<and> mutate store_b4_copy 1 (Invertbit 0) = Inr (set_bytes store_b4_copy 1 [0x50])
   \<and> same_view store_b4_copy (set_bytes store_b4_copy 1 [0x50]) 0
   \<and> getbit (set_bytes store_b4_copy 1 [0x50]) 0 0 = getbit store_b4_copy 0 0
   \<and> mutate store_b4_copy 0 (Setbyte 0 0xFF) = Inr (set_bytes store_b4_copy 0 [0xFF])
   \<and> same_view store_b4_copy (set_bytes store_b4_copy 0 [0xFF]) 1
   \<and> getbit (set_bytes store_b4_copy 0 [0xFF]) 1 0 = getbit store_b4_copy 1 0"
proof -
  have a: "offsetcopy store_b4 0 0 = Inr (store_b4_copy, 1)" by code_simp
  have b: "allocated store_b4 0" by code_simp
  have c: "mutate store_b4_copy 1 (Invertbit 0) = Inr (set_bytes store_b4_copy 1 [0x50])"
    by code_simp
  have d: "mutate store_b4_copy 0 (Setbyte 0 0xFF) = Inr (set_bytes store_b4_copy 0 [0xFF])"
    by code_simp
  show ?thesis using offsetcopy_shares_no_storage [OF a b] a b c d by blast
qed

section \<open>Equality of in-memory buffers\<close>

text \<open>
  For two in-memory buffers with non-negative offsets whose storage covers their bits,
  \<^verbatim>\<open>equal\<close> returns, and returns true exactly when the bitlengths are the same and
  \<^verbatim>\<open>getbit\<close> gives the same result on both at every position.  Neither the offsets nor
  the bitlength are bounded.
\<close>

theorem equal_in_memory_bitwise:
  assumes a: "objects h ! a = InMemory ca ma" and b: "objects h ! b = InMemory cb mb"
    and oa: "0 \<le> m_offset ma" and ob: "0 \<le> m_offset mb"
    and cova: "m_offset ma + m_bitlength ma \<le> 8 * int (length (bytearrays h ! rawarray ma))"
    and covb: "m_offset mb + m_bitlength mb \<le> 8 * int (length (bytearrays h ! rawarray mb))"
    and n: "0 \<le> m_bitlength ma"
  shows "equal h a b = Inr (m_bitlength ma = m_bitlength mb
           \<and> (\<forall>i. 0 \<le> i \<and> i < m_bitlength ma \<longrightarrow> getbit h a i = getbit h b i))"
proof (cases "m_bitlength ma = m_bitlength mb")
  case False
  then show ?thesis using equal_in_memory [OF a b oa ob cova covb n] by simp
next
  case True
  have "agree (bytearrays h ! rawarray ma) (m_offset ma)
          (bytearrays h ! rawarray mb) (m_offset mb) 0 (m_bitlength ma)
        = (\<forall>i. 0 \<le> i \<and> i < m_bitlength ma \<longrightarrow> getbit h a i = getbit h b i)"
    unfolding agree_def
    using getbit_bit_at [OF a oa _ _ cova] getbit_bit_at [OF b ob _ _ covb] True
    by auto
  then show ?thesis using equal_in_memory [OF a b oa ob cova covb n] by simp
qed

text \<open>
  The theorem at work on the four bits 1111 at offset 0 of \<^verbatim>\<open>0xF0\<close> and at offset 4 of
  \<^verbatim>\<open>0x0F\<close>.
\<close>

theorem equal_in_memory_bitwise_witness:
  "objects store_f00f ! 0 = InMemory ByteArray \<lparr>rawarray = 0, m_offset = 0, m_bitlength = 4\<rparr>
   \<and> objects store_f00f ! 1 = InMemory ByteArray \<lparr>rawarray = 1, m_offset = 4, m_bitlength = 4\<rparr>
   \<and> equal store_f00f 0 1 = Inr True
   \<and> getbit store_f00f 0 2 = getbit store_f00f 1 2"
proof -
  have a: "objects store_f00f ! 0
      = InMemory ByteArray \<lparr>rawarray = 0, m_offset = 0, m_bitlength = 4\<rparr>"
    and b: "objects store_f00f ! 1
      = InMemory ByteArray \<lparr>rawarray = 1, m_offset = 4, m_bitlength = 4\<rparr>"
    by (simp_all add: store_f00f_def)
  have e: "equal store_f00f 0 1 = Inr True" by code_simp
  have "equal store_f00f 0 1 = Inr ((4::int) = 4
           \<and> (\<forall>i. 0 \<le> i \<and> i < 4 \<longrightarrow> getbit store_f00f 0 i = getbit store_f00f 1 i))"
    using equal_in_memory_bitwise [OF a b] by (simp add: store_f00f_def)
  then have "getbit store_f00f 0 2 = getbit store_f00f 1 2" using e by simp
  then show ?thesis using a b e by simp
qed


section \<open>Round trip of realignment in memory\<close>

text \<open>
  For an in-memory buffer with offset in \<open>[0,8)\<close>, at least one bit and storage that
  covers its bits, \<^verbatim>\<open>offsetcopy\<close> to any offset in \<open>[0,8)\<close> and back both return; the
  result has the bitlength and the offset of the buffer, reads the same bit at every
  position, and is structurally equal to it.
\<close>

theorem offsetcopy_round_trip_in_memory:
  assumes s: "objects h ! s = InMemory c m" and off: "0 \<le> m_offset m" "m_offset m < 8"
    and n: "0 < m_bitlength m" and no: "0 \<le> n0" "n0 < 8"
    and cov: "m_offset m + m_bitlength m \<le> 8 * int (length (bytearrays h ! rawarray m))"
    and alloc: "s < length (objects h)" "rawarray m < length (bytearrays h)"
  shows "\<exists>h1 r1 h2 r2. offsetcopy h s n0 = Inr (h1, r1)
      \<and> offsetcopy h1 r1 (m_offset m) = Inr (h2, r2)
      \<and> bitlength (objects h2 ! r2) = m_bitlength m
      \<and> offset (objects h2 ! r2) = m_offset m
      \<and> (\<forall>i. 0 \<le> i \<and> i < m_bitlength m \<longrightarrow> getbit h2 r2 i = getbit h s i)
      \<and> equal h2 r2 s = Inr True"
proof -
  let ?d = "bytearrays h ! rawarray m"
  obtain d1 where d1: "offsetcopy h s n0 = Inr (ByteArray_fresh h d1 (m_bitlength m) n0)"
      "int (length d1) = (n0 + m_bitlength m + 7) div 8"
      "agree d1 n0 ?d (m_offset m) 0 (m_bitlength m)"
    using offsetcopy_in_memory [OF s off n no cov] by blast
  define m1 where "m1 = \<lparr>rawarray = length (bytearrays h), m_offset = n0,
      m_bitlength = m_bitlength m\<rparr>"
  define h1 where "h1 = \<lparr>bytearrays = bytearrays h @ [d1],
      objects = objects h @ [InMemory ByteArray m1]\<rparr>"
  define r1 where "r1 = length (objects h)"
  have f1: "ByteArray_fresh h d1 (m_bitlength m) n0 = (h1, r1)"
    by (simp add: ByteArray_fresh_eq h1_def m1_def r1_def)
  have o1: "objects h1 ! r1 = InMemory ByteArray m1" by (simp add: h1_def r1_def)
  have b1: "bytearrays h1 ! rawarray m1 = d1" by (simp add: h1_def m1_def)
  have cov1: "m_offset m1 + m_bitlength m1 \<le> 8 * int (length (bytearrays h1 ! rawarray m1))"
    unfolding b1 using ceil8_cover [of "n0 + m_bitlength m"] d1(2) by (simp add: m1_def)
  have g1: "0 \<le> m_offset m1" "m_offset m1 < 8" "0 < m_bitlength m1"
    using no n by (simp_all add: m1_def)
  obtain d2 where d2: "offsetcopy h1 r1 (m_offset m)
        = Inr (ByteArray_fresh h1 d2 (m_bitlength m1) (m_offset m))"
      "int (length d2) = (m_offset m + m_bitlength m1 + 7) div 8"
      "agree d2 (m_offset m) (bytearrays h1 ! rawarray m1) (m_offset m1) 0 (m_bitlength m1)"
    using offsetcopy_in_memory [OF o1 g1 off cov1] by blast
  define m2 where "m2 = \<lparr>rawarray = length (bytearrays h1), m_offset = m_offset m,
      m_bitlength = m_bitlength m\<rparr>"
  define h2 where "h2 = \<lparr>bytearrays = bytearrays h1 @ [d2],
      objects = objects h1 @ [InMemory ByteArray m2]\<rparr>"
  define r2 where "r2 = length (objects h1)"
  have f2: "ByteArray_fresh h1 d2 (m_bitlength m1) (m_offset m) = (h2, r2)"
    by (simp add: ByteArray_fresh_eq h2_def m2_def r2_def m1_def)
  have o2: "objects h2 ! r2 = InMemory ByteArray m2" by (simp add: h2_def r2_def)
  have b2: "bytearrays h2 ! rawarray m2 = d2" by (simp add: h2_def m2_def)
  have os: "objects h2 ! s = InMemory c m"
    using alloc(1) s by (simp add: h2_def h1_def nth_append)
  have bs: "bytearrays h2 ! rawarray m = ?d"
    using alloc(2) by (simp add: h2_def h1_def nth_append)
  have ag: "agree d2 (m_offset m) ?d (m_offset m) 0 (m_bitlength m)"
    using agree_trans [OF d2(3) [unfolded b1] ] d1(3) by (simp add: m1_def)
  have cov2: "m_offset m2 + m_bitlength m2 \<le> 8 * int (length (bytearrays h2 ! rawarray m2))"
    unfolding b2 using ceil8_cover [of "m_offset m + m_bitlength m"] d2(2)
    by (simp add: m2_def m1_def)
  have covs: "m_offset m + m_bitlength m \<le> 8 * int (length (bytearrays h2 ! rawarray m))"
    using cov by (simp add: bs)
  have bits: "getbit h2 r2 i = getbit h s i" if "0 \<le> i" "i < m_bitlength m" for i
  proof -
    have "getbit h2 r2 i = Inr (bit_at d2 (m_offset m + i))"
      using getbit_bit_at [OF o2 _ that(1) _ cov2] that off unfolding b2
      by (simp add: m2_def)
    moreover have "getbit h s i = Inr (bit_at ?d (m_offset m + i))"
      using getbit_bit_at [OF s off(1) that cov] .
    moreover have "bit_at d2 (m_offset m + i) = bit_at ?d (m_offset m + i)"
      using ag that by (simp add: agree_def)
    ultimately show ?thesis by simp
  qed
  have eq: "equal h2 r2 s = Inr True"
    using equal_in_memory [OF o2 os _ off(1) cov2 covs] ag off n unfolding b2 bs
    by (simp add: m2_def)
  have "bitlength (objects h2 ! r2) = m_bitlength m" "offset (objects h2 ! r2) = m_offset m"
    by (simp_all add: o2 bitlength_def offset_def m2_def)
  then show ?thesis using d1(1) d2(1) f1 f2 bits eq by auto
qed

text \<open>
  The theorem at work on the buffer of four bits at offset 2, through offset 7.
\<close>

theorem offsetcopy_round_trip_in_memory_witness:
  "objects store_b4 ! 0 = InMemory ByteArray \<lparr>rawarray = 0, m_offset = 2, m_bitlength = 4\<rparr>
   \<and> (\<exists>h1 r1 h2 r2. offsetcopy store_b4 0 7 = Inr (h1, r1)
      \<and> offsetcopy h1 r1 2 = Inr (h2, r2)
      \<and> bitlength (objects h2 ! r2) = 4 \<and> offset (objects h2 ! r2) = 2
      \<and> getbit h2 r2 2 = getbit store_b4 0 2
      \<and> equal h2 r2 0 = Inr True)"
proof -
  have s: "objects store_b4 ! 0
      = InMemory ByteArray \<lparr>rawarray = 0, m_offset = 2, m_bitlength = 4\<rparr>"
    by (simp add: store_b4_def)
  have "\<exists>h1 r1 h2 r2. offsetcopy store_b4 0 7 = Inr (h1, r1)
      \<and> offsetcopy h1 r1 2 = Inr (h2, r2)
      \<and> bitlength (objects h2 ! r2) = 4 \<and> offset (objects h2 ! r2) = 2
      \<and> (\<forall>i. 0 \<le> i \<and> i < 4 \<longrightarrow> getbit h2 r2 i = getbit store_b4 0 i)
      \<and> equal h2 r2 0 = Inr True"
    using offsetcopy_round_trip_in_memory [OF s, of 7] by (simp add: store_b4_def)
  then obtain h1 r1 h2 r2 where "offsetcopy store_b4 0 7 = Inr (h1, r1)"
      "offsetcopy h1 r1 2 = Inr (h2, r2)"
      "bitlength (objects h2 ! r2) = 4" "offset (objects h2 ! r2) = 2"
      "\<forall>i. 0 \<le> i \<and> i < 4 \<longrightarrow> getbit h2 r2 i = getbit store_b4 0 i"
      "equal h2 r2 0 = Inr True"
    by blast
  moreover from this(5) have "getbit h2 r2 2 = getbit store_b4 0 2" by simp
  ultimately show ?thesis using s by blast
qed

section \<open>Prepending and slicing in memory\<close>

text \<open>
  For in-memory buffers \<open>a\<close> and \<open>b\<close> with offsets in \<open>[0,8)\<close> whose storage covers
  their bits, the storage of \<open>b\<close> not empty: \<^verbatim>\<open>c = copy(b)\<close> and \<^verbatim>\<open>c.prependarray(a)\<close>
  return, \<open>c.bitlength = a.bitlength + b.bitlength\<close>, and
  \<^verbatim>\<open>equal(slice(c, a.bitlength, 0), a)\<close> and
  \<^verbatim>\<open>equal(slice(c, b.bitlength, a.bitlength), b)\<close> return \<^verbatim>\<open>True\<close>.
\<close>

theorem prependarray_slices_equal:
  assumes a: "a < length (objects h)" "objects h ! a = InMemory ca ma"
      "rawarray ma < length (bytearrays h)"
    and b: "b < length (objects h)" "objects h ! b = InMemory cb mb"
      "rawarray mb < length (bytearrays h)"
    and oa: "0 \<le> m_offset ma" "m_offset ma < 8" and na: "0 \<le> m_bitlength ma"
    and ob: "0 \<le> m_offset mb" "m_offset mb < 8" and nb: "0 \<le> m_bitlength mb"
    and cova: "m_offset ma + m_bitlength ma \<le> 8 * int (length (bytearrays h ! rawarray ma))"
    and covb: "m_offset mb + m_bitlength mb \<le> 8 * int (length (bytearrays h ! rawarray mb))"
    and dbne: "bytearrays h ! rawarray mb \<noteq> []"
  shows "\<exists>h1 c h2 h3 s1 h4 s2.
      copy h b = Inr (h1, c) \<and> prependarray h1 c a = Inr h2
      \<and> bitlength (objects h2 ! c) = m_bitlength ma + m_bitlength mb
      \<and> slice_array h2 c (m_bitlength ma) 0 = Inr (h3, s1) \<and> equal h3 s1 a = Inr True
      \<and> slice_array h3 c (m_bitlength mb) (m_bitlength ma) = Inr (h4, s2)
      \<and> equal h4 s2 b = Inr True"
proof -
  let ?da = "bytearrays h ! rawarray ma" and ?db = "bytearrays h ! rawarray mb"
  let ?c = "length (objects h)"
  let ?na = "m_bitlength ma" and ?nb = "m_bitlength mb"
  obtain h1 h2 newc k rc where r: "copy h b = Inr (h1, ?c)" "prependarray h1 ?c a = Inr h2"
      "?c < length (objects h2)"
      "objects h2 ! ?c = InMemory ByteArray
           \<lparr>rawarray = rc, m_offset = k, m_bitlength = ?na + ?nb\<rparr>"
      "0 \<le> k" "k < 8"
      "objects h2 ! a = InMemory ca ma" "objects h2 ! b = InMemory cb mb"
      "bytearrays h2 ! rc = newc" "bytearrays h2 ! rawarray ma = ?da"
      "bytearrays h2 ! rawarray mb = ?db"
      "k + ?na + ?nb \<le> 8 * int (length newc)"
      "agree newc k ?da (m_offset ma) 0 ?na"
      "agree newc (k + ?na) ?db (m_offset mb) 0 ?nb"
    using prependarray_after_copy [OF a b oa na ob nb cova covb dbne] by blast
  define ms1 where "ms1 = \<lparr>rawarray = rc, m_offset = k + 0, m_bitlength = ?na\<rparr>"
  define h3 where "h3 = h2\<lparr>objects := objects h2 @ [InMemory ByteArray ms1]\<rparr>"
  define ms2 where "ms2 = \<lparr>rawarray = rc, m_offset = k + ?na, m_bitlength = ?nb\<rparr>"
  define h4 where "h4 = h3\<lparr>objects := objects h3 @ [InMemory ByteArray ms2]\<rparr>"
  have lt: "a < length (objects h2)" "b < length (objects h2)" using a(1) b(1) r(3) by simp_all
  have s1: "slice_array h2 ?c ?na 0 = Inr (h3, length (objects h2))"
    using slice_array_in_memory [OF r(4), of ?na 0] by (simp add: h3_def ms1_def)
  have o3: "objects h3 ! length (objects h2) = InMemory ByteArray ms1"
      "objects h3 ! a = InMemory ca ma" "objects h3 ! b = InMemory cb mb"
      "objects h3 ! ?c = InMemory ByteArray
           \<lparr>rawarray = rc, m_offset = k, m_bitlength = ?na + ?nb\<rparr>"
      "bytearrays h3 = bytearrays h2" "length (objects h3) = Suc (length (objects h2))"
    using lt r(3,4,7,8) by (simp_all add: h3_def nth_append)
  have s2: "slice_array h3 ?c ?nb ?na = Inr (h4, length (objects h3))"
    using slice_array_in_memory [OF o3(4), of ?nb ?na] by (simp add: h4_def ms2_def)
  have o4: "objects h4 ! length (objects h3) = InMemory ByteArray ms2"
      "objects h4 ! b = InMemory cb mb" "bytearrays h4 = bytearrays h2"
    using lt o3 by (simp_all add: h4_def nth_append)
  have e1: "equal h3 (length (objects h2)) a = Inr True"
  proof -
    have "equal h3 (length (objects h2)) a = Inr (m_bitlength ms1 = ?na
           \<and> agree (bytearrays h3 ! rawarray ms1) (m_offset ms1)
                   (bytearrays h3 ! rawarray ma) (m_offset ma) 0 (m_bitlength ms1))"
      by (rule equal_in_memory [OF o3(1,2)])
         (use oa na nb r(5,9,10,12) cova o3(5) in \<open>simp_all add: ms1_def\<close>)
    then show ?thesis using r(9,10,13) o3(5) by (simp add: ms1_def)
  qed
  have e2: "equal h4 (length (objects h3)) b = Inr True"
  proof -
    have "equal h4 (length (objects h3)) b = Inr (m_bitlength ms2 = ?nb
           \<and> agree (bytearrays h4 ! rawarray ms2) (m_offset ms2)
                   (bytearrays h4 ! rawarray mb) (m_offset mb) 0 (m_bitlength ms2))"
      by (rule equal_in_memory [OF o4(1,2)])
         (use oa na nb ob r(5,9,11,12) covb o4(3) in \<open>simp_all add: ms2_def\<close>)
    then show ?thesis using r(9,11,14) o4(3) by (simp add: ms2_def)
  qed
  have bl: "bitlength (objects h2 ! ?c) = ?na + ?nb" using r(4) by (simp add: bitlength_def)
  show ?thesis using r(1,2) bl s1 e1 s2 e2 by blast
qed

text \<open>
  The theorem at work: the bits 1111 at offset 0 prepended to the bits 1111 at offset 4.
\<close>

theorem prependarray_slices_equal_witness:
  "objects store_f00f ! 0 = InMemory ByteArray \<lparr>rawarray = 0, m_offset = 0, m_bitlength = 4\<rparr>
   \<and> objects store_f00f ! 1 = InMemory ByteArray \<lparr>rawarray = 1, m_offset = 4, m_bitlength = 4\<rparr>
   \<and> (0::int) + 4 \<le> 8 * int (length (bytearrays store_f00f ! 0))
   \<and> (4::int) + 4 \<le> 8 * int (length (bytearrays store_f00f ! 1))
   \<and> (\<exists>h1 c h2 h3 s1 h4 s2.
      copy store_f00f 1 = Inr (h1, c) \<and> prependarray h1 c 0 = Inr h2
      \<and> bitlength (objects h2 ! c) = 4 + 4
      \<and> slice_array h2 c 4 0 = Inr (h3, s1) \<and> equal h3 s1 0 = Inr True
      \<and> slice_array h3 c 4 4 = Inr (h4, s2)
      \<and> equal h4 s2 1 = Inr True)"
proof -
  let ?ma = "\<lparr>rawarray = 0, m_offset = 0, m_bitlength = 4\<rparr>"
  let ?mb = "\<lparr>rawarray = 1, m_offset = 4, m_bitlength = 4\<rparr>"
  have a: "0 < length (objects store_f00f)" "objects store_f00f ! 0 = InMemory ByteArray ?ma"
      "rawarray ?ma < length (bytearrays store_f00f)"
    and b: "1 < length (objects store_f00f)" "objects store_f00f ! 1 = InMemory ByteArray ?mb"
      "rawarray ?mb < length (bytearrays store_f00f)"
    and o: "0 \<le> m_offset ?ma" "m_offset ?ma < 8" "0 \<le> m_bitlength ?ma"
      "0 \<le> m_offset ?mb" "m_offset ?mb < 8" "0 \<le> m_bitlength ?mb"
    and cova: "m_offset ?ma + m_bitlength ?ma
        \<le> 8 * int (length (bytearrays store_f00f ! rawarray ?ma))"
    and covb: "m_offset ?mb + m_bitlength ?mb
        \<le> 8 * int (length (bytearrays store_f00f ! rawarray ?mb))"
    and ne: "bytearrays store_f00f ! rawarray ?mb \<noteq> []"
    by (simp_all add: store_f00f_def)
  have c: "\<exists>h1 c h2 h3 s1 h4 s2.
      copy store_f00f 1 = Inr (h1, c) \<and> prependarray h1 c 0 = Inr h2
      \<and> bitlength (objects h2 ! c) = 4 + 4
      \<and> slice_array h2 c 4 0 = Inr (h3, s1) \<and> equal h3 s1 0 = Inr True
      \<and> slice_array h3 c 4 4 = Inr (h4, s2)
      \<and> equal h4 s2 1 = Inr True"
    using prependarray_slices_equal [OF a b o cova covb ne] by simp
  have e: "(0::int) + 4 \<le> 8 * int (length (bytearrays store_f00f ! 0))"
      "(4::int) + 4 \<le> 8 * int (length (bytearrays store_f00f ! 1))"
    using cova covb by simp_all
  from a(2) b(2) e c show ?thesis by blast
qed


end
